theory Spec2Isabelle
  imports Main
begin

section \<open>JavaScript strings\<close>

text \<open>
  A JavaScript string is a sequence of UTF-16 code units. The plugin indexes, slices and
  compares strings by code unit, so a string is modelled as the list of its code units,
  each a natural number below 65536.
\<close>

type_synonym code_unit = nat
type_synonym jsstring = "code_unit list"

definition js :: "string \<Rightarrow> jsstring" where
  \<comment> \<open>An ASCII literal as a JavaScript string.\<close>
  "js s = map of_char s"

definition LF :: code_unit where "LF = 10"
definition SPACE :: code_unit where "SPACE = 32"

definition occurs_at :: "jsstring \<Rightarrow> jsstring \<Rightarrow> nat \<Rightarrow> bool" where
  \<comment> \<open>The code units of \<open>t\<close> stand in \<open>s\<close> from index \<open>k\<close> on.\<close>
  "occurs_at s t k = (take (length t) (drop k s) = t)"

definition clamp_index :: "int \<Rightarrow> nat \<Rightarrow> nat" where
  \<comment> \<open>\<open>min(max(pos, 0), len)\<close> of String.prototype.indexOf and lastIndexOf.\<close>
  "clamp_index p len = nat (min (max p 0) (int len))"

definition indexOf :: "jsstring \<Rightarrow> jsstring \<Rightarrow> int \<Rightarrow> int" where
  \<comment> \<open>\<open>s.indexOf(t, fromIndex)\<close>: the smallest index at or after the clamped start where
      \<open>t\<close> occurs, or -1.\<close>
  "indexOf s t fromIndex =
     (case find (occurs_at s t) [clamp_index fromIndex (length s) ..< Suc (length s)] of
        None \<Rightarrow> - 1
      | Some k \<Rightarrow> int k)"

definition lastIndexOf :: "jsstring \<Rightarrow> jsstring \<Rightarrow> int \<Rightarrow> int" where
  \<comment> \<open>\<open>s.lastIndexOf(t, fromIndex)\<close>: the largest index at or before the clamped start
      where \<open>t\<close> occurs, or -1. A negative \<open>fromIndex\<close> is clamped to 0, so index 0 is
      still tried.\<close>
  "lastIndexOf s t fromIndex =
     (case find (occurs_at s t) (rev [0 ..< Suc (clamp_index fromIndex (length s))]) of
        None \<Rightarrow> - 1
      | Some k \<Rightarrow> int k)"

definition lastIndexOf_all :: "jsstring \<Rightarrow> jsstring \<Rightarrow> int" where
  \<comment> \<open>\<open>s.lastIndexOf(t)\<close> with no position: the search starts at the end.\<close>
  "lastIndexOf_all s t = lastIndexOf s t (int (length s))"

definition slice_index :: "int \<Rightarrow> nat \<Rightarrow> nat" where
  \<comment> \<open>An argument of \<open>slice\<close>: a negative one counts from the end.\<close>
  "slice_index i len = (if i < 0 then nat (max (int len + i) 0) else nat (min i (int len)))"

definition slice :: "jsstring \<Rightarrow> int \<Rightarrow> int \<Rightarrow> jsstring" where
  "slice s a b =
     (let from = slice_index a (length s); to = slice_index b (length s)
      in take (to - from) (drop from s))"

fun split_on :: "code_unit \<Rightarrow> jsstring \<Rightarrow> jsstring list" where
  \<comment> \<open>\<open>s.split(sep)\<close> for a separator of one code unit; the empty string gives one empty
      piece.\<close>
  "split_on c [] = [[]]"
| "split_on c (x # xs) =
     (if x = c then [] # split_on c xs
      else (x # hd (split_on c xs)) # tl (split_on c xs))"

fun join_with :: "jsstring \<Rightarrow> jsstring list \<Rightarrow> jsstring" where
  \<comment> \<open>\<open>pieces.join(sep)\<close>.\<close>
  "join_with sep [] = []"
| "join_with sep [p] = p"
| "join_with sep (p # q # ps) = p @ sep @ join_with sep (q # ps)"

section \<open>The host editor\<close>

text \<open>
  The plugin works on the editor of the host application through its interface:
  \<open>getCursor\<close>, \<open>getLine\<close>, \<open>lineCount\<close>, \<open>getValue\<close>, \<open>listSelections\<close>,
  \<open>setSelections\<close>, \<open>setSelection\<close>, \<open>setCursor\<close>, \<open>somethingSelected\<close>,
  \<open>getSelection\<close>, \<open>replaceRange\<close> and \<open>focus\<close>. The model keeps the document as its
  list of lines and the selections as a list whose last entry is the primary one (the
  one \<open>getCursor\<close> and \<open>getSelection\<close> read). Positions are stored as the plugin passes
  them: clipping a position to the document is the host's business and not modelled.
\<close>

record pos =
  line :: int
  ch :: int

record selection =
  anchor :: pos
  head :: pos

record editor =
  doc :: "jsstring list"
  secondary :: "selection list"
  primary :: selection
  focused :: bool

definition listSelections :: "editor \<Rightarrow> selection list" where
  "listSelections ed = secondary ed @ [primary ed]"

definition getCursor :: "editor \<Rightarrow> pos" where
  "getCursor ed = head (primary ed)"

definition lineCount :: "editor \<Rightarrow> int" where
  "lineCount ed = int (length (doc ed))"

definition getLine :: "editor \<Rightarrow> int \<Rightarrow> jsstring" where
  \<comment> \<open>Outside the document the model answers the empty string; the statements below
      about a line that is looked up assume the line is in the document.\<close>
  "getLine ed n = (if 0 \<le> n \<and> n < lineCount ed then doc ed ! nat n else [])"

definition getValue :: "editor \<Rightarrow> jsstring" where
  "getValue ed = join_with [LF] (doc ed)"

definition posToOffset :: "jsstring list \<Rightarrow> pos \<Rightarrow> nat" where
  "posToOffset ls p = sum_list (map (\<lambda>l. Suc (length l)) (take (nat (line p)) ls)) + nat (ch p)"

definition pos_le :: "pos \<Rightarrow> pos \<Rightarrow> bool" where
  "pos_le p q = (line p < line q \<or> (line p = line q \<and> ch p \<le> ch q))"

definition sel_from :: "selection \<Rightarrow> pos" where
  "sel_from s = (if pos_le (anchor s) (head s) then anchor s else head s)"

definition sel_to :: "selection \<Rightarrow> pos" where
  "sel_to s = (if pos_le (anchor s) (head s) then head s else anchor s)"

definition getRange :: "editor \<Rightarrow> pos \<Rightarrow> pos \<Rightarrow> jsstring" where
  "getRange ed p q =
     take (posToOffset (doc ed) q - posToOffset (doc ed) p)
       (drop (posToOffset (doc ed) p) (getValue ed))"

definition getSelection :: "editor \<Rightarrow> jsstring" where
  "getSelection ed = getRange ed (sel_from (primary ed)) (sel_to (primary ed))"

definition somethingSelected :: "editor \<Rightarrow> bool" where
  "somethingSelected ed = list_ex (\<lambda>s. anchor s \<noteq> head s) (listSelections ed)"

definition setSelections :: "editor \<Rightarrow> selection list \<Rightarrow> editor" where
  "setSelections ed rs =
     (if rs = [] then ed else ed\<lparr>secondary := butlast rs, primary := last rs\<rparr>)"

definition setSelection :: "editor \<Rightarrow> pos \<Rightarrow> pos \<Rightarrow> editor" where
  "setSelection ed a h = setSelections ed [\<lparr>anchor = a, head = h\<rparr>]"

definition setCursor :: "editor \<Rightarrow> pos \<Rightarrow> editor" where
  "setCursor ed p = setSelection ed p p"

definition focus :: "editor \<Rightarrow> editor" where
  "focus ed = ed\<lparr>focused := True\<rparr>"

definition replaceRange :: "editor \<Rightarrow> jsstring \<Rightarrow> pos \<Rightarrow> editor" where
  \<comment> \<open>\<open>editor.replaceRange(text, from)\<close> with no \<open>to\<close>: \<open>text\<close> is inserted at \<open>from\<close>.
      The line is cut at the column, the pieces of \<open>text\<close> between its line breaks are
      spliced in, and the selections are left as they are.\<close>
  "replaceRange ed text p =
     (let ls = doc ed; n = nat (line p); l = getLine ed (line p);
          pieces = split_on LF text;
          before = take (nat (ch p)) l; after = drop (nat (ch p)) l;
          spliced =
            (if length pieces = 1 then [before @ hd pieces @ after]
             else (before @ hd pieces) # butlast (tl pieces) @ [last pieces @ after])
      in ed\<lparr>doc := take n ls @ spliced @ drop (Suc n) ls\<rparr>)"

section \<open>Regular expressions of the host language\<close>

text \<open>
  \<open>handleSelectAllOccurrences\<close> builds \<open>new RegExp(textToSelect, "g")\<close> and calls
  \<open>exec\<close> in a loop. The model covers the patterns made of pattern characters (every
  code unit that is not one of the syntax characters \<open>^ $ \ . * + ? ( ) [ ] { } |\<close>),
  the dot, and the greedy star after either. A pattern that begins a term with a
  quantifier is a SyntaxError of the constructor. Every other use of a syntax character
  (groups, classes, escapes, anchors, alternatives, the other quantifiers) is outside the
  model and reported as \<open>PatternNotModelled\<close>; nothing is stated about such patterns.
  The flags are \<open>g\<close> only: matching is by code unit and case-sensitive.
\<close>

datatype failure = SyntaxError | PatternNotModelled

datatype atom = PatternCharacter code_unit | AnyChar

datatype regex_term = Once atom | Star atom

type_synonym regex = "regex_term list"

definition is_quantifier_char :: "code_unit \<Rightarrow> bool" where
  \<comment> \<open>\<open>*\<close>, \<open>+\<close>, \<open>?\<close>\<close>
  "is_quantifier_char c = (c = 42 \<or> c = 43 \<or> c = 63)"

definition is_syntax_char :: "code_unit \<Rightarrow> bool" where
  \<comment> \<open>\<open>^ $ \ . * + ? ( ) [ ] { } |\<close>\<close>
  "is_syntax_char c = (c \<in> set [94, 36, 92, 46, 42, 43, 63, 40, 41, 91, 93, 123, 125, 124])"

definition atom_of :: "code_unit \<Rightarrow> atom" where
  "atom_of c = (if c = 46 then AnyChar else PatternCharacter c)"

fun RegExp :: "jsstring \<Rightarrow> failure + regex" where
  "RegExp [] = Inr []"
| "RegExp (c # cs) =
     (if is_quantifier_char c then Inl SyntaxError
      else if is_syntax_char c \<and> c \<noteq> 46 then Inl PatternNotModelled
      else (case cs of
              [] \<Rightarrow> Inr [Once (atom_of c)]
            | q # rest \<Rightarrow>
                if q = 42 then
                  (case rest of
                     [] \<Rightarrow> Inr [Star (atom_of c)]
                   | r # _ \<Rightarrow>
                       if r = 63 then Inl PatternNotModelled
                       else (case RegExp rest of
                               Inl e \<Rightarrow> Inl e
                             | Inr ts \<Rightarrow> Inr (Star (atom_of c) # ts)))
                else if is_quantifier_char q then Inl PatternNotModelled
                else (case RegExp cs of
                        Inl e \<Rightarrow> Inl e
                      | Inr ts \<Rightarrow> Inr (Once (atom_of c) # ts))))"

definition is_line_terminator :: "code_unit \<Rightarrow> bool" where
  \<comment> \<open>LF, CR, LS (U+2028), PS (U+2029): what the dot does not match.\<close>
  "is_line_terminator c = (c = 10 \<or> c = 13 \<or> c = 8232 \<or> c = 8233)"

fun atom_matches :: "atom \<Rightarrow> code_unit \<Rightarrow> bool" where
  "atom_matches (PatternCharacter p) c = (p = c)"
| "atom_matches AnyChar c = (\<not> is_line_terminator c)"

fun match_here :: "regex \<Rightarrow> jsstring \<Rightarrow> nat option" where
  \<comment> \<open>The length of the match of the pattern at the start of the text, the backtracking
      matcher's first choice: a star takes as many code units as it can and gives them
      back one by one.\<close>
  "match_here [] s = Some 0"
| "match_here (Once a # ts) [] = None"
| "match_here (Once a # ts) (c # cs) =
     (if atom_matches a c then map_option Suc (match_here ts cs) else None)"
| "match_here (Star a # ts) [] = match_here ts []"
| "match_here (Star a # ts) (c # cs) =
     (if atom_matches a c then
        (case match_here (Star a # ts) cs of
           Some n \<Rightarrow> Some (Suc n)
         | None \<Rightarrow> match_here ts (c # cs))
      else match_here ts (c # cs))"

fun exec_from :: "regex \<Rightarrow> jsstring \<Rightarrow> nat \<Rightarrow> (nat \<times> nat) option" where
  \<comment> \<open>The leftmost match in the rest of the text, which starts at index \<open>i\<close>: the index
      of the match and the index after it.\<close>
  "exec_from rx [] i = (case match_here rx [] of None \<Rightarrow> None | Some n \<Rightarrow> Some (i, i + n))"
| "exec_from rx (c # cs) i =
     (case match_here rx (c # cs) of
        None \<Rightarrow> exec_from rx cs (Suc i)
      | Some n \<Rightarrow> Some (i, i + n))"

definition regex_exec :: "regex \<Rightarrow> jsstring \<Rightarrow> nat \<Rightarrow> (nat \<times> nat) option" where
  \<comment> \<open>\<open>regex.exec(text)\<close> of a global expression whose \<open>lastIndex\<close> is given: \<open>None\<close> is
      \<open>null\<close>; otherwise \<open>match.index\<close> and the new \<open>lastIndex\<close>, the end of the match
      (an empty match leaves it where the match is).\<close>
  "regex_exec rx text lastIndex =
     (if length text < lastIndex then None else exec_from rx (drop lastIndex text) lastIndex)"

section \<open>Select all occurrences\<close>

record occurrence =
  sel_start :: pos
  sel_end :: pos

definition occurrence_at :: "jsstring \<Rightarrow> nat \<Rightarrow> nat \<Rightarrow> occurrence" where
  \<comment> \<open>The object pushed for a match at \<open>match.index = idx\<close>; \<open>n\<close> is
      \<open>textToSelect.length\<close>.\<close>
  "occurrence_at allText n idx =
     \<lparr>sel_start =
        \<lparr>line = int (length (split_on LF (slice allText 0 (int idx)))) - 1,
         ch = int idx - lastIndexOf_all (slice allText 0 (int idx)) [LF] - 1\<rparr>,
      sel_end =
        \<lparr>line = int (length (split_on LF (slice allText 0 (int idx)))) - 1,
         ch = int idx + int n - lastIndexOf_all (slice allText 0 (int idx)) [LF] - 1\<rparr>\<rparr>"

partial_function (option) exec_loop ::
  "regex \<Rightarrow> jsstring \<Rightarrow> nat \<Rightarrow> nat \<Rightarrow> occurrence list \<Rightarrow> occurrence list option" where
  \<comment> \<open>\<open>while ((match = regex.exec(allText)) !== null) selections.push(...)\<close>; a loop that
      does not end has no value.\<close>
  "exec_loop rx allText n lastIndex selections =
     (case regex_exec rx allText lastIndex of
        None \<Rightarrow> Some selections
      | Some (idx, e) \<Rightarrow> exec_loop rx allText n e (selections @ [occurrence_at allText n idx]))"

declare exec_loop.simps [code]

definition textToSelect_of :: "editor \<Rightarrow> jsstring" where
  \<comment> \<open>The selected text, or the word around the cursor when nothing is selected.\<close>
  "textToSelect_of ed =
     (let cursor = getCursor ed;
          ln = getLine ed (line cursor);
          selectedText = getSelection ed
      in if selectedText \<noteq> [] then selectedText
         else (let wordStart = lastIndexOf ln [SPACE] (ch cursor - 1) + 1;
                   wordEnd = indexOf ln [SPACE] (ch cursor)
               in slice ln wordStart (if wordEnd = - 1 then int (length ln) else wordEnd)))"

definition handleSelectAllOccurrences ::
  "bool \<Rightarrow> editor option \<Rightarrow> (failure + editor option \<times> bool) option" where
  \<comment> \<open>\<open>None\<close>: the handler does not return. \<open>Inl\<close>: the constructor throws (or the
      pattern is outside the model). \<open>Inr\<close>: the editor afterwards and the value
      returned.\<close>
  "handleSelectAllOccurrences checking view =
     (if checking then Some (Inr (view, True))
      else case view of
        None \<Rightarrow> Some (Inr (None, True))
      | Some ed \<Rightarrow>
          (let textToSelect = textToSelect_of ed; allText = getValue ed
           in case RegExp textToSelect of
                Inl e \<Rightarrow> Some (Inl e)
              | Inr regex \<Rightarrow>
                  (case exec_loop regex allText (length textToSelect) 0 [] of
                     None \<Rightarrow> None
                   | Some selections \<Rightarrow>
                       Some (Inr (Some
                         (if 0 < length selections
                          then setSelections ed
                                 (map (\<lambda>sel. \<lparr>anchor = sel_start sel, head = sel_end sel\<rparr>) selections)
                          else ed), True)))))"

section \<open>Duplicate line down\<close>

definition duplicateDown_each ::
  "editor \<times> selection list \<Rightarrow> selection \<Rightarrow> editor \<times> selection list" where
  \<comment> \<open>The body of \<open>selections.forEach\<close>: the editor and \<open>newSelections\<close> before and
      after one selection is handled. The lines are read from the editor as it stands
      when the selection is reached.\<close>
  "duplicateDown_each st selection =
     (let ed = fst st; newSelections = snd st;
          startLine = min (line (anchor selection)) (line (head selection));
          endLine = max (line (anchor selection)) (line (head selection));
          linesToDuplicate = map (getLine ed) [startLine..endLine];
          ed' = replaceRange ed ([LF] @ join_with [LF] linesToDuplicate)
                  \<lparr>line = endLine, ch = int (length (getLine ed endLine))\<rparr>;
          linesCount = endLine - startLine + 1
      in (ed',
          newSelections @
          [\<lparr>anchor =
              \<lparr>line = endLine + 1,
               ch = (if line (anchor selection) = startLine then ch (anchor selection) else 0)\<rparr>,
            head =
              \<lparr>line = endLine + linesCount,
               ch = (if line (head selection) = endLine then ch (head selection)
                     else int (length (getLine ed' endLine)))\<rparr>\<rparr>]))"

definition handleDuplicateLineDown :: "bool \<Rightarrow> editor option \<Rightarrow> editor option \<times> bool" where
  "handleDuplicateLineDown checking view =
     (if \<not> checking then
        (case view of
           None \<Rightarrow> (None, True)
         | Some editor \<Rightarrow>
             (let st = foldl duplicateDown_each (editor, []) (listSelections editor)
              in (Some (setSelections (fst st) (snd st)), True)))
      else (view, True))"

text \<open>
  The earlier handler of the same command works on the cursor line only and guards its
  host calls with \<open>try\<close>/\<open>catch\<close>. Which host calls raise is a parameter; a call that
  raises has no effect of its own, and what was done before it stays done. The result
  says which call's exception was caught and logged, if any.
\<close>

datatype host_call = GetActiveEditor | GetCursor | GetLine | ReplaceRange | SetCursor

definition duplicateLineDown_try ::
  "(host_call \<Rightarrow> bool) \<Rightarrow> editor option \<Rightarrow> editor option \<times> host_call option" where
  \<comment> \<open>The \<open>try\<close> block: the editor when the block is left, and the call that raised.\<close>
  "duplicateLineDown_try raises view =
     (if raises GetActiveEditor then (view, Some GetActiveEditor)
      else case view of
        None \<Rightarrow> (None, None)
      | Some editor \<Rightarrow>
          if raises GetCursor then (view, Some GetCursor)
          else let cursor = getCursor editor in
          if raises GetLine then (view, Some GetLine)
          else let ln = getLine editor (line cursor) in
          if raises ReplaceRange then (view, Some ReplaceRange)
          else let ed' = replaceRange editor ([LF] @ ln)
                           \<lparr>line = line cursor, ch = int (length ln)\<rparr> in
          if raises SetCursor then (Some ed', Some SetCursor)
          else (Some (setCursor ed' \<lparr>line = line cursor + 1, ch = ch cursor\<rparr>), None))"

definition handleDuplicateLineDown_guarded ::
  "(host_call \<Rightarrow> bool) \<Rightarrow> bool \<Rightarrow> editor option
     \<Rightarrow> host_call + (editor option \<times> host_call option \<times> bool)" where
  \<comment> \<open>\<open>Inl\<close> would be an exception that reaches the caller. \<open>Inr\<close>: the editor
      afterwards, the exception logged by \<open>console.error\<close>, and the value returned.\<close>
  "handleDuplicateLineDown_guarded raises checking view =
     (if \<not> checking then
        (case duplicateLineDown_try raises view of
           (view', None) \<Rightarrow> Inr (view', None, True)
         | (view', Some error) \<Rightarrow> Inr (view', Some error, True))
      else Inr (view, None, True))"

section \<open>Select line\<close>

record plugin =
  selectLineCount :: int
  lastSelectedLine :: int

definition initial_plugin :: plugin where
  "initial_plugin = \<lparr>selectLineCount = 0, lastSelectedLine = - 1\<rparr>"

definition mousedown :: "plugin \<Rightarrow> plugin" where
  \<comment> \<open>The registered \<open>mousedown\<close> listener.\<close>
  "mousedown p = p\<lparr>selectLineCount := 0, lastSelectedLine := - 1\<rparr>"

definition handleSelectLine ::
  "bool \<Rightarrow> plugin \<Rightarrow> editor option \<Rightarrow> plugin \<times> editor option \<times> bool" where
  "handleSelectLine checking p view =
     (if \<not> checking then
        (case view of
           None \<Rightarrow> (p, None, True)
         | Some editor \<Rightarrow>
             (let cursor = getCursor editor;
                  currentLine = line cursor;
                  p1 = (if \<not> somethingSelected editor
                        then p\<lparr>selectLineCount := 0, lastSelectedLine := currentLine\<rparr>
                        else p);
                  ed' = (if selectLineCount p1 = 0
                         then setSelection editor
                                \<lparr>line = lastSelectedLine p1, ch = 0\<rparr>
                                \<lparr>line = lastSelectedLine p1 + 1, ch = 0\<rparr>
                         else setSelection editor
                                \<lparr>line = lastSelectedLine p1, ch = 0\<rparr>
                                \<lparr>line = lastSelectedLine p1 + selectLineCount p1 + 1, ch = 0\<rparr>)
              in (p1\<lparr>selectLineCount := selectLineCount p1 + 1\<rparr>, Some ed', True)))
      else (p, view, True))"

section \<open>Insert cursor below and above\<close>

definition cursorBelow_each :: "editor \<Rightarrow> pos list \<Rightarrow> selection \<Rightarrow> pos list" where
  \<comment> \<open>One round of the \<open>for\<close> loop: \<open>newCursors\<close> before and after.\<close>
  "cursorBelow_each editor newCursors selection =
     (let lineBelow = line (anchor selection) + 1
      in if lineBelow < lineCount editor then
           (let lineBelowLength = int (length (getLine editor lineBelow));
                newCh = min (ch (anchor selection)) lineBelowLength
            in newCursors @ [\<lparr>line = lineBelow, ch = newCh\<rparr>])
         else newCursors)"

definition handleInsertCursorBelow :: "bool \<Rightarrow> editor option \<Rightarrow> editor option \<times> bool" where
  "handleInsertCursorBelow checking view =
     (if \<not> checking then
        (case view of
           None \<Rightarrow> (None, True)
         | Some editor \<Rightarrow>
             (let newCursors =
                    foldl (cursorBelow_each editor) (map anchor (listSelections editor))
                      (listSelections editor)
              in (Some (focus (setSelections editor
                          (map (\<lambda>pos. \<lparr>anchor = pos, head = pos\<rparr>) newCursors))), True)))
      else (view, True))"

definition cursorAbove_each :: "editor \<Rightarrow> pos list \<Rightarrow> selection \<Rightarrow> pos list" where
  "cursorAbove_each editor newCursors selection =
     (let lineAbove = line (anchor selection) - 1
      in if 0 \<le> lineAbove then
           (let lineAboveLength = int (length (getLine editor lineAbove));
                newCh = min (ch (anchor selection)) lineAboveLength
            in newCursors @ [\<lparr>line = lineAbove, ch = newCh\<rparr>])
         else newCursors)"

definition handleInsertCursorAbove :: "bool \<Rightarrow> editor option \<Rightarrow> editor option \<times> bool" where
  "handleInsertCursorAbove checking view =
     (if \<not> checking then
        (case view of
           None \<Rightarrow> (None, True)
         | Some editor \<Rightarrow>
             (let newCursors =
                    foldl (cursorAbove_each editor) (map anchor (listSelections editor))
                      (listSelections editor)
              in (Some (focus (setSelections editor
                          (map (\<lambda>pos. \<lparr>anchor = pos, head = pos\<rparr>) newCursors))), True)))
      else (view, True))"

section \<open>Select word or expand\<close>

definition handleSelectWordOrExpand :: "bool \<Rightarrow> editor option \<Rightarrow> editor option \<times> bool" where
  "handleSelectWordOrExpand checking view =
     (if \<not> checking then
        (case view of
           None \<Rightarrow> (None, True)
         | Some editor \<Rightarrow>
             (let cursor = getCursor editor;
                  ln = getLine editor (line cursor);
                  selectedText = getSelection editor
              in if selectedText \<noteq> [] then
                   (let newSelections = listSelections editor;
                        lastSelection = last newSelections;
                        lastEndIndex = ch (head lastSelection);
                        nextIndex = indexOf ln selectedText lastEndIndex
                    in if nextIndex \<noteq> - 1 then
                         (Some (setSelections editor
                            (newSelections @
                             [\<lparr>anchor = \<lparr>line = line cursor, ch = nextIndex\<rparr>,
                               head = \<lparr>line = line cursor,
                                       ch = nextIndex + int (length selectedText)\<rparr>\<rparr>])), True)
                       else (Some editor, True))
                 else
                   (let wordStart = lastIndexOf ln [SPACE] (ch cursor - 1) + 1;
                        wordEnd = indexOf ln [SPACE] (ch cursor);
                        word = slice ln wordStart
                                 (if wordEnd = - 1 then int (length ln) else wordEnd)
                    in (Some (setSelection editor
                          \<lparr>line = line cursor, ch = wordStart\<rparr>
                          \<lparr>line = line cursor, ch = wordStart + int (length word)\<rparr>), True))))
      else (view, True))"

text \<open>
  The earlier handler of the same command keeps the word in the plugin
  (\<open>lastSelectedWord\<close>, \<open>null\<close> at first): with a selection it only records the
  selected text; with none and a recorded word it jumps to the next occurrence of the
  word on the line, from the cursor on.
\<close>

definition handleSelectWordOrExpand_jump ::
  "bool \<Rightarrow> jsstring option \<Rightarrow> editor option \<Rightarrow> jsstring option \<times> editor option \<times> bool" where
  \<comment> \<open>The second argument and the first result are \<open>lastSelectedWord\<close> before and
      after; \<open>null\<close> and the empty string are both falsy.\<close>
  "handleSelectWordOrExpand_jump checking lastSelectedWord view =
     (if \<not> checking then
        (case view of
           None \<Rightarrow> (lastSelectedWord, None, True)
         | Some editor \<Rightarrow>
             (let cursor = getCursor editor;
                  ln = getLine editor (line cursor);
                  selectedText = getSelection editor;
                  w = (case lastSelectedWord of None \<Rightarrow> [] | Some x \<Rightarrow> x)
              in if selectedText \<noteq> [] then (Some selectedText, Some editor, True)
                 else if w \<noteq> [] then
                   (let nextIndex = indexOf ln w (ch cursor)
                    in if nextIndex \<noteq> - 1 then
                         (lastSelectedWord,
                          Some (setCursor
                            (setSelection editor
                               \<lparr>line = line cursor, ch = nextIndex\<rparr>
                               \<lparr>line = line cursor, ch = nextIndex + int (length w)\<rparr>)
                            \<lparr>line = line cursor, ch = nextIndex + int (length w)\<rparr>), True)
                       else (lastSelectedWord, Some editor, True))
                 else
                   (let wordStart = lastIndexOf ln [SPACE] (ch cursor - 1) + 1;
                        wordEnd = indexOf ln [SPACE] (ch cursor);
                        word = slice ln wordStart
                                 (if wordEnd = - 1 then int (length ln) else wordEnd)
                    in (Some word,
                        Some (setSelection editor
                          \<lparr>line = line cursor, ch = wordStart\<rparr>
                          \<lparr>line = line cursor, ch = wordStart + int (length word)\<rparr>), True))))
      else (lastSelectedWord, view, True))"

section \<open>Toggle case\<close>

text \<open>
  \<open>toUpperCase\<close> and \<open>toLowerCase\<close> of a string of one code unit, by the case mappings
  of Unicode 14.0 for the Basic Multilingual Plane (the simple mappings of UnicodeData and
  the unconditional mappings of SpecialCasing). The mappings to one code unit are kept as
  ranges: the first and the last code unit of the range, the step from one mapped code
  unit to the next, and the offset to the result. The mappings to several code units are
  listed one by one. Every other code unit, a surrogate among them, is its own upper and
  lower case.
\<close>

type_synonym case_range = "nat \<times> nat \<times> nat \<times> int"

definition upper_ranges :: "case_range list" where
  "upper_ranges =
     [(97, 122, 1, - 32), (181, 181, 1, 743), (224, 246, 1, - 32), (248, 254, 1, - 32),
      (255, 255, 1, 121), (257, 303, 2, - 1), (305, 305, 1, - 232), (307, 311, 2, - 1),
      (314, 328, 2, - 1), (331, 375, 2, - 1), (378, 382, 2, - 1), (383, 383, 1, - 300),
      (384, 384, 1, 195), (387, 389, 2, - 1), (392, 392, 1, - 1), (396, 396, 1, - 1),
      (402, 402, 1, - 1), (405, 405, 1, 97), (409, 409, 1, - 1), (410, 410, 1, 163),
      (414, 414, 1, 130), (417, 421, 2, - 1), (424, 424, 1, - 1), (429, 429, 1, - 1),
      (432, 432, 1, - 1), (436, 438, 2, - 1), (441, 441, 1, - 1), (445, 445, 1, - 1),
      (447, 447, 1, 56), (453, 453, 1, - 1), (454, 454, 1, - 2), (456, 456, 1, - 1),
      (457, 457, 1, - 2), (459, 459, 1, - 1), (460, 460, 1, - 2), (462, 476, 2, - 1),
      (477, 477, 1, - 79), (479, 495, 2, - 1), (498, 498, 1, - 1), (499, 499, 1, - 2),
      (501, 501, 1, - 1), (505, 543, 2, - 1), (547, 563, 2, - 1), (572, 572, 1, - 1),
      (575, 576, 1, 10815), (578, 578, 1, - 1), (583, 591, 2, - 1), (592, 592, 1, 10783),
      (593, 593, 1, 10780), (594, 594, 1, 10782), (595, 595, 1, - 210),
      (596, 596, 1, - 206), (598, 599, 1, - 205), (601, 601, 1, - 202),
      (603, 603, 1, - 203), (604, 604, 1, 42319), (608, 608, 1, - 205),
      (609, 609, 1, 42315), (611, 611, 1, - 207), (613, 613, 1, 42280),
      (614, 614, 1, 42308), (616, 616, 1, - 209), (617, 617, 1, - 211),
      (618, 618, 1, 42308), (619, 619, 1, 10743), (620, 620, 1, 42305),
      (623, 623, 1, - 211), (625, 625, 1, 10749), (626, 626, 1, - 213),
      (629, 629, 1, - 214), (637, 637, 1, 10727), (640, 640, 1, - 218),
      (642, 642, 1, 42307), (643, 643, 1, - 218), (647, 647, 1, 42282),
      (648, 648, 1, - 218), (649, 649, 1, - 69), (650, 651, 1, - 217), (652, 652, 1, - 71),
      (658, 658, 1, - 219), (669, 669, 1, 42261), (670, 670, 1, 42258), (837, 837, 1, 84),
      (881, 883, 2, - 1), (887, 887, 1, - 1), (891, 893, 1, 130), (940, 940, 1, - 38),
      (941, 943, 1, - 37), (945, 961, 1, - 32), (962, 962, 1, - 31), (963, 971, 1, - 32),
      (972, 972, 1, - 64), (973, 974, 1, - 63), (976, 976, 1, - 62), (977, 977, 1, - 57),
      (981, 981, 1, - 47), (982, 982, 1, - 54), (983, 983, 1, - 8), (985, 1007, 2, - 1),
      (1008, 1008, 1, - 86), (1009, 1009, 1, - 80), (1010, 1010, 1, 7),
      (1011, 1011, 1, - 116), (1013, 1013, 1, - 96), (1016, 1016, 1, - 1),
      (1019, 1019, 1, - 1), (1072, 1103, 1, - 32), (1104, 1119, 1, - 80),
      (1121, 1153, 2, - 1), (1163, 1215, 2, - 1), (1218, 1230, 2, - 1),
      (1231, 1231, 1, - 15), (1233, 1327, 2, - 1), (1377, 1414, 1, - 48),
      (4304, 4346, 1, 3008), (4349, 4351, 1, 3008), (5112, 5117, 1, - 8),
      (7296, 7296, 1, - 6254), (7297, 7297, 1, - 6253), (7298, 7298, 1, - 6244),
      (7299, 7300, 1, - 6242), (7301, 7301, 1, - 6243), (7302, 7302, 1, - 6236),
      (7303, 7303, 1, - 6181), (7304, 7304, 1, 35266), (7545, 7545, 1, 35332),
      (7549, 7549, 1, 3814), (7566, 7566, 1, 35384), (7681, 7829, 2, - 1),
      (7835, 7835, 1, - 59), (7841, 7935, 2, - 1), (7936, 7943, 1, 8), (7952, 7957, 1, 8),
      (7968, 7975, 1, 8), (7984, 7991, 1, 8), (8000, 8005, 1, 8), (8017, 8023, 2, 8),
      (8032, 8039, 1, 8), (8048, 8049, 1, 74), (8050, 8053, 1, 86), (8054, 8055, 1, 100),
      (8056, 8057, 1, 128), (8058, 8059, 1, 112), (8060, 8061, 1, 126), (8112, 8113, 1, 8),
      (8126, 8126, 1, - 7205), (8144, 8145, 1, 8), (8160, 8161, 1, 8), (8165, 8165, 1, 7),
      (8526, 8526, 1, - 28), (8560, 8575, 1, - 16), (8580, 8580, 1, - 1),
      (9424, 9449, 1, - 26), (11312, 11359, 1, - 48), (11361, 11361, 1, - 1),
      (11365, 11365, 1, - 10795), (11366, 11366, 1, - 10792), (11368, 11372, 2, - 1),
      (11379, 11379, 1, - 1), (11382, 11382, 1, - 1), (11393, 11491, 2, - 1),
      (11500, 11502, 2, - 1), (11507, 11507, 1, - 1), (11520, 11557, 1, - 7264),
      (11559, 11559, 1, - 7264), (11565, 11565, 1, - 7264), (42561, 42605, 2, - 1),
      (42625, 42651, 2, - 1), (42787, 42799, 2, - 1), (42803, 42863, 2, - 1),
      (42874, 42876, 2, - 1), (42879, 42887, 2, - 1), (42892, 42892, 1, - 1),
      (42897, 42899, 2, - 1), (42900, 42900, 1, 48), (42903, 42921, 2, - 1),
      (42933, 42947, 2, - 1), (42952, 42954, 2, - 1), (42961, 42961, 1, - 1),
      (42967, 42969, 2, - 1), (42998, 42998, 1, - 1), (43859, 43859, 1, - 928),
      (43888, 43967, 1, - 38864), (65345, 65370, 1, - 32)]"

definition upper_special :: "(code_unit \<times> jsstring) list" where
  "upper_special =
     [(223, [83, 83]), (329, [700, 78]), (496, [74, 780]), (912, [921, 776, 769]),
      (944, [933, 776, 769]), (1415, [1333, 1362]), (7830, [72, 817]), (7831, [84, 776]),
      (7832, [87, 778]), (7833, [89, 778]), (7834, [65, 702]), (8016, [933, 787]),
      (8018, [933, 787, 768]), (8020, [933, 787, 769]), (8022, [933, 787, 834]),
      (8064, [7944, 921]), (8065, [7945, 921]), (8066, [7946, 921]), (8067, [7947, 921]),
      (8068, [7948, 921]), (8069, [7949, 921]), (8070, [7950, 921]), (8071, [7951, 921]),
      (8072, [7944, 921]), (8073, [7945, 921]), (8074, [7946, 921]), (8075, [7947, 921]),
      (8076, [7948, 921]), (8077, [7949, 921]), (8078, [7950, 921]), (8079, [7951, 921]),
      (8080, [7976, 921]), (8081, [7977, 921]), (8082, [7978, 921]), (8083, [7979, 921]),
      (8084, [7980, 921]), (8085, [7981, 921]), (8086, [7982, 921]), (8087, [7983, 921]),
      (8088, [7976, 921]), (8089, [7977, 921]), (8090, [7978, 921]), (8091, [7979, 921]),
      (8092, [7980, 921]), (8093, [7981, 921]), (8094, [7982, 921]), (8095, [7983, 921]),
      (8096, [8040, 921]), (8097, [8041, 921]), (8098, [8042, 921]), (8099, [8043, 921]),
      (8100, [8044, 921]), (8101, [8045, 921]), (8102, [8046, 921]), (8103, [8047, 921]),
      (8104, [8040, 921]), (8105, [8041, 921]), (8106, [8042, 921]), (8107, [8043, 921]),
      (8108, [8044, 921]), (8109, [8045, 921]), (8110, [8046, 921]), (8111, [8047, 921]),
      (8114, [8122, 921]), (8115, [913, 921]), (8116, [902, 921]), (8118, [913, 834]),
      (8119, [913, 834, 921]), (8124, [913, 921]), (8130, [8138, 921]), (8131, [919, 921]),
      (8132, [905, 921]), (8134, [919, 834]), (8135, [919, 834, 921]), (8140, [919, 921]),
      (8146, [921, 776, 768]), (8147, [921, 776, 769]), (8150, [921, 834]),
      (8151, [921, 776, 834]), (8162, [933, 776, 768]), (8163, [933, 776, 769]),
      (8164, [929, 787]), (8166, [933, 834]), (8167, [933, 776, 834]), (8178, [8186, 921]),
      (8179, [937, 921]), (8180, [911, 921]), (8182, [937, 834]), (8183, [937, 834, 921]),
      (8188, [937, 921]), (64256, [70, 70]), (64257, [70, 73]), (64258, [70, 76]),
      (64259, [70, 70, 73]), (64260, [70, 70, 76]), (64261, [83, 84]), (64262, [83, 84]),
      (64275, [1348, 1350]), (64276, [1348, 1333]), (64277, [1348, 1339]),
      (64278, [1358, 1350]), (64279, [1348, 1341])]"

definition lower_ranges :: "case_range list" where
  "lower_ranges =
     [(65, 90, 1, 32), (192, 214, 1, 32), (216, 222, 1, 32), (256, 302, 2, 1),
      (306, 310, 2, 1), (313, 327, 2, 1), (330, 374, 2, 1), (376, 376, 1, - 121),
      (377, 381, 2, 1), (385, 385, 1, 210), (386, 388, 2, 1), (390, 390, 1, 206),
      (391, 391, 1, 1), (393, 394, 1, 205), (395, 395, 1, 1), (398, 398, 1, 79),
      (399, 399, 1, 202), (400, 400, 1, 203), (401, 401, 1, 1), (403, 403, 1, 205),
      (404, 404, 1, 207), (406, 406, 1, 211), (407, 407, 1, 209), (408, 408, 1, 1),
      (412, 412, 1, 211), (413, 413, 1, 213), (415, 415, 1, 214), (416, 420, 2, 1),
      (422, 422, 1, 218), (423, 423, 1, 1), (425, 425, 1, 218), (428, 428, 1, 1),
      (430, 430, 1, 218), (431, 431, 1, 1), (433, 434, 1, 217), (435, 437, 2, 1),
      (439, 439, 1, 219), (440, 440, 1, 1), (444, 444, 1, 1), (452, 452, 1, 2),
      (453, 453, 1, 1), (455, 455, 1, 2), (456, 456, 1, 1), (458, 458, 1, 2),
      (459, 475, 2, 1), (478, 494, 2, 1), (497, 497, 1, 2), (498, 500, 2, 1),
      (502, 502, 1, - 97), (503, 503, 1, - 56), (504, 542, 2, 1), (544, 544, 1, - 130),
      (546, 562, 2, 1), (570, 570, 1, 10795), (571, 571, 1, 1), (573, 573, 1, - 163),
      (574, 574, 1, 10792), (577, 577, 1, 1), (579, 579, 1, - 195), (580, 580, 1, 69),
      (581, 581, 1, 71), (582, 590, 2, 1), (880, 882, 2, 1), (886, 886, 1, 1),
      (895, 895, 1, 116), (902, 902, 1, 38), (904, 906, 1, 37), (908, 908, 1, 64),
      (910, 911, 1, 63), (913, 929, 1, 32), (931, 939, 1, 32), (975, 975, 1, 8),
      (984, 1006, 2, 1), (1012, 1012, 1, - 60), (1015, 1015, 1, 1), (1017, 1017, 1, - 7),
      (1018, 1018, 1, 1), (1021, 1023, 1, - 130), (1024, 1039, 1, 80), (1040, 1071, 1, 32),
      (1120, 1152, 2, 1), (1162, 1214, 2, 1), (1216, 1216, 1, 15), (1217, 1229, 2, 1),
      (1232, 1326, 2, 1), (1329, 1366, 1, 48), (4256, 4293, 1, 7264),
      (4295, 4295, 1, 7264), (4301, 4301, 1, 7264), (5024, 5103, 1, 38864),
      (5104, 5109, 1, 8), (7312, 7354, 1, - 3008), (7357, 7359, 1, - 3008),
      (7680, 7828, 2, 1), (7838, 7838, 1, - 7615), (7840, 7934, 2, 1),
      (7944, 7951, 1, - 8), (7960, 7965, 1, - 8), (7976, 7983, 1, - 8),
      (7992, 7999, 1, - 8), (8008, 8013, 1, - 8), (8025, 8031, 2, - 8),
      (8040, 8047, 1, - 8), (8072, 8079, 1, - 8), (8088, 8095, 1, - 8),
      (8104, 8111, 1, - 8), (8120, 8121, 1, - 8), (8122, 8123, 1, - 74),
      (8124, 8124, 1, - 9), (8136, 8139, 1, - 86), (8140, 8140, 1, - 9),
      (8152, 8153, 1, - 8), (8154, 8155, 1, - 100), (8168, 8169, 1, - 8),
      (8170, 8171, 1, - 112), (8172, 8172, 1, - 7), (8184, 8185, 1, - 128),
      (8186, 8187, 1, - 126), (8188, 8188, 1, - 9), (8486, 8486, 1, - 7517),
      (8490, 8490, 1, - 8383), (8491, 8491, 1, - 8262), (8498, 8498, 1, 28),
      (8544, 8559, 1, 16), (8579, 8579, 1, 1), (9398, 9423, 1, 26), (11264, 11311, 1, 48),
      (11360, 11360, 1, 1), (11362, 11362, 1, - 10743), (11363, 11363, 1, - 3814),
      (11364, 11364, 1, - 10727), (11367, 11371, 2, 1), (11373, 11373, 1, - 10780),
      (11374, 11374, 1, - 10749), (11375, 11375, 1, - 10783), (11376, 11376, 1, - 10782),
      (11378, 11378, 1, 1), (11381, 11381, 1, 1), (11390, 11391, 1, - 10815),
      (11392, 11490, 2, 1), (11499, 11501, 2, 1), (11506, 11506, 1, 1),
      (42560, 42604, 2, 1), (42624, 42650, 2, 1), (42786, 42798, 2, 1),
      (42802, 42862, 2, 1), (42873, 42875, 2, 1), (42877, 42877, 1, - 35332),
      (42878, 42886, 2, 1), (42891, 42891, 1, 1), (42893, 42893, 1, - 42280),
      (42896, 42898, 2, 1), (42902, 42920, 2, 1), (42922, 42922, 1, - 42308),
      (42923, 42923, 1, - 42319), (42924, 42924, 1, - 42315), (42925, 42925, 1, - 42305),
      (42926, 42926, 1, - 42308), (42928, 42928, 1, - 42258), (42929, 42929, 1, - 42282),
      (42930, 42930, 1, - 42261), (42931, 42931, 1, 928), (42932, 42946, 2, 1),
      (42948, 42948, 1, - 48), (42949, 42949, 1, - 42307), (42950, 42950, 1, - 35384),
      (42951, 42953, 2, 1), (42960, 42960, 1, 1), (42966, 42968, 2, 1),
      (42997, 42997, 1, 1), (65313, 65338, 1, 32)]"

definition lower_special :: "(code_unit \<times> jsstring) list" where
  "lower_special =
     [(304, [105, 775])]"

fun in_case_range :: "code_unit \<Rightarrow> case_range \<Rightarrow> bool" where
  "in_case_range c (lo, hi, step, delta) =
     (if c < lo \<or> hi < c then False else (c - lo) mod step = 0)"

fun apply_case_range :: "code_unit \<Rightarrow> case_range \<Rightarrow> jsstring" where
  "apply_case_range c (lo, hi, step, delta) = [nat (int c + delta)]"

definition case_map :: "(code_unit \<times> jsstring) list \<Rightarrow> case_range list \<Rightarrow> code_unit \<Rightarrow> jsstring" where
  "case_map special ranges c =
     (case map_of special c of
        Some s \<Rightarrow> s
      | None \<Rightarrow>
          (case find (in_case_range c) ranges of
             Some r \<Rightarrow> apply_case_range c r
           | None \<Rightarrow> [c]))"

definition toUpperCase_unit :: "code_unit \<Rightarrow> jsstring" where
  "toUpperCase_unit c = case_map upper_special upper_ranges c"

definition toLowerCase_unit :: "code_unit \<Rightarrow> jsstring" where
  "toLowerCase_unit c = case_map lower_special lower_ranges c"

definition toggle_char :: "code_unit \<Rightarrow> jsstring" where
  \<comment> \<open>\<open>char === char.toUpperCase() ? char.toLowerCase() : char.toUpperCase()\<close>\<close>
  "toggle_char c =
     (if [c] = toUpperCase_unit c then toLowerCase_unit c else toUpperCase_unit c)"

definition toggled :: "jsstring \<Rightarrow> jsstring" where
  \<comment> \<open>\<open>selectedText.split("").map(...).join("")\<close>\<close>
  "toggled selectedText = concat (map toggle_char selectedText)"

section \<open>Notions of the specification\<close>

text \<open>
  The specification's mapping of a flat offset to a coordinate: the line is the number of
  newline characters before the offset; the column is the offset minus the offset of the
  nearest preceding newline minus 1, or the offset itself when no newline precedes it.
\<close>

definition newlines_before :: "jsstring \<Rightarrow> nat \<Rightarrow> nat" where
  "newlines_before text off = length (filter (\<lambda>c. c = LF) (take off text))"

definition nearest_newline_before :: "jsstring \<Rightarrow> nat \<Rightarrow> nat option" where
  "nearest_newline_before text off = find (\<lambda>p. text ! p = LF) (rev [0..<off])"

definition offsetToPos :: "jsstring \<Rightarrow> nat \<Rightarrow> pos" where
  "offsetToPos text off =
     \<lparr>line = int (newlines_before text off),
      ch = (case nearest_newline_before text off of
              None \<Rightarrow> int off
            | Some p \<Rightarrow> int off - int p - 1)\<rparr>"

definition literal_occurrences :: "jsstring \<Rightarrow> jsstring \<Rightarrow> nat list" where
  \<comment> \<open>The offsets where \<open>t\<close> occurs in the text as a literal substring, ascending.\<close>
  "literal_occurrences allText t = filter (occurs_at allText t) [0..<Suc (length allText)]"

definition fan_out :: "editor \<Rightarrow> int \<Rightarrow> selection list" where
  \<comment> \<open>The selection set of the specification: for every selection a cursor at its
      anchor, then for each selection whose adjacent line (\<open>d\<close> lines from the anchor's)
      is in the document a cursor on that line, at the anchor's column or at the end of
      the line if that is less; both in the order of the selections.\<close>
  "fan_out ed d =
     map (\<lambda>s. \<lparr>anchor = \<lparr>line = line (anchor s), ch = ch (anchor s)\<rparr>,
                head = \<lparr>line = line (anchor s), ch = ch (anchor s)\<rparr>\<rparr>)
       (listSelections ed) @
     concat (map (\<lambda>s. let adjacentLine = line (anchor s) + d
                        in if 0 \<le> adjacentLine \<and> adjacentLine < lineCount ed
                           then [\<lparr>anchor = \<lparr>line = adjacentLine,
                                             ch = min (ch (anchor s))
                                                    (int (length (doc ed ! nat adjacentLine)))\<rparr>,
                                   head = \<lparr>line = adjacentLine,
                                           ch = min (ch (anchor s))
                                                  (int (length (doc ed ! nat adjacentLine)))\<rparr>\<rparr>]
                           else [])
               (listSelections ed))"

definition lines_covered :: "nat \<Rightarrow> selection \<Rightarrow> nat" where
  \<comment> \<open>How many lines of a document of \<open>N\<close> lines the range from the anchor to the head
      covers in full: from the start of the line to the start of the next.\<close>
  "lines_covered N s =
     length (filter (\<lambda>i. pos_le (anchor s) \<lparr>line = int i, ch = 0\<rparr> \<and>
                          pos_le \<lparr>line = int i + 1, ch = 0\<rparr> (head s)) [0..<N])"

definition press_select_line :: "plugin \<times> editor option \<Rightarrow> editor \<Rightarrow> plugin \<times> editor option" where
  \<comment> \<open>One invocation of the line-select command in a run: the plugin state is kept from
      the invocation before, the editor is as the host presents it now.\<close>
  "press_select_line st ed =
     (case handleSelectLine False (fst st) (Some ed) of (p', view', r) \<Rightarrow> (p', view'))"

definition deleteLines :: "jsstring list \<Rightarrow> nat \<Rightarrow> nat \<Rightarrow> jsstring list" where
  \<comment> \<open>The document without the \<open>k\<close> lines from index \<open>i\<close> on.\<close>
  "deleteLines ls i k = take i ls @ drop (i + k) ls"

definition round_trips :: "code_unit \<Rightarrow> bool" where
  \<comment> \<open>The code unit toggles to one code unit, and that one toggles to it: it has no
      case, or it is one of an upper and a lower case letter that map to each other.\<close>
  "round_trips c = (case toggle_char c of [d] \<Rightarrow> toggle_char d = [c] | _ \<Rightarrow> False)"

section \<open>Example editors\<close>

definition cursor_at :: "int \<Rightarrow> int \<Rightarrow> selection" where
  "cursor_at l c = \<lparr>anchor = \<lparr>line = l, ch = c\<rparr>, head = \<lparr>line = l, ch = c\<rparr>\<rparr>"

definition range_of :: "int \<Rightarrow> int \<Rightarrow> int \<Rightarrow> int \<Rightarrow> selection" where
  "range_of al ac hl hc = \<lparr>anchor = \<lparr>line = al, ch = ac\<rparr>, head = \<lparr>line = hl, ch = hc\<rparr>\<rparr>"

definition abEditor :: editor where
  \<comment> \<open>The document \<open>ab\<close>, \<open>cab\<close>, \<open>abc\<close> with the first \<open>ab\<close> selected.\<close>
  "abEditor =
     \<lparr>doc = [js ''ab'', js ''cab'', js ''abc''], secondary = [],
      primary = range_of 0 0 0 2, focused = True\<rparr>"

definition twoLineEditor :: editor where
  \<comment> \<open>The document \<open>a\<close>, \<open>b\<close> with all of it selected: the selected text has a line
      break.\<close>
  "twoLineEditor =
     \<lparr>doc = [js ''a'', js ''b''], secondary = [], primary = range_of 0 0 1 1,
      focused = True\<rparr>"

definition dotEditor :: editor where
  \<comment> \<open>The line \<open>a.b axb\<close> with \<open>a.b\<close> selected.\<close>
  "dotEditor =
     \<lparr>doc = [js ''a.b axb''], secondary = [], primary = range_of 0 0 0 3,
      focused = True\<rparr>"

definition emptyLineEditor :: editor where
  \<comment> \<open>One empty line, the cursor on it, nothing selected.\<close>
  "emptyLineEditor = \<lparr>doc = [[]], secondary = [], primary = cursor_at 0 0, focused = True\<rparr>"

definition clampEditor :: editor where
  \<comment> \<open>A line of length 10 over a line of length 3, the cursor at column 5 of the
      first.\<close>
  "clampEditor =
     \<lparr>doc = [js ''0123456789'', js ''abc''], secondary = [], primary = cursor_at 0 5,
      focused = False\<rparr>"

definition backwardEditor :: editor where
  \<comment> \<open>The lines \<open>ab\<close> and \<open>cd\<close>, selected backwards from line 1 column 1 to line 0
      column 1.\<close>
  "backwardEditor =
     \<lparr>doc = [js ''ab'', js ''cd''], secondary = [], primary = range_of 1 1 0 1,
      focused = True\<rparr>"

definition backwardWordEditor :: editor where
  \<comment> \<open>The line \<open>ab ab\<close> with the first \<open>ab\<close> selected backwards: the head is at
      column 0.\<close>
  "backwardWordEditor =
     \<lparr>doc = [js ''ab ab''], secondary = [], primary = range_of 0 2 0 0, focused = True\<rparr>"

definition forwardWordEditor :: editor where
  \<comment> \<open>The line \<open>ab ab\<close> with the first \<open>ab\<close> selected forwards.\<close>
  "forwardWordEditor =
     \<lparr>doc = [js ''ab ab''], secondary = [], primary = range_of 0 0 0 2, focused = True\<rparr>"

definition oneLineEditor :: editor where
  \<comment> \<open>The line \<open>ab\<close> with the cursor at column 1.\<close>
  "oneLineEditor = \<lparr>doc = [js ''ab''], secondary = [], primary = cursor_at 0 1, focused = True\<rparr>"

definition threeLineEditor :: editor where
  \<comment> \<open>Three lines with the cursor on the middle one.\<close>
  "threeLineEditor =
     \<lparr>doc = [js ''one'', js ''two'', js ''three''], secondary = [], primary = cursor_at 1 2,
      focused = True\<rparr>"

definition threeLineSelected :: editor where
  \<comment> \<open>The same three lines after the first line-select: line 1 is selected.\<close>
  "threeLineSelected =
     setSelection threeLineEditor \<lparr>line = 1, ch = 0\<rparr> \<lparr>line = 2, ch = 0\<rparr>"

definition draggedEditor :: editor where
  \<comment> \<open>The same three lines with the word on the middle line selected, as by dragging
      over it: the cursor, the head of the selection, is on line 1.\<close>
  "draggedEditor =
     \<lparr>doc = [js ''one'', js ''two'', js ''three''], secondary = [],
      primary = range_of 1 0 1 3, focused = True\<rparr>"

fun only_SetCursor_raises :: "host_call \<Rightarrow> bool" where
  "only_SetCursor_raises SetCursor = True"
| "only_SetCursor_raises c = False"

fun nothing_raises :: "host_call \<Rightarrow> bool" where
  "nothing_raises c = False"

fun only_ReplaceRange_raises :: "host_call \<Rightarrow> bool" where
  "only_ReplaceRange_raises ReplaceRange = True"
| "only_ReplaceRange_raises c = False"

section \<open>Properties\<close>

subsection \<open>Select all occurrences\<close>

lemma listSelections_setSelections:
  "rs \<noteq> [] \<Longrightarrow> listSelections (setSelections ed rs) = rs"
  by (simp add: listSelections_def setSelections_def)

lemma match_here_le: "match_here rx s = Some n \<Longrightarrow> n \<le> length s"
proof (induction rx s arbitrary: n rule: match_here.induct)
  case (5 a ts c cs)
  then show ?case by (auto split: if_splits option.splits)
qed (auto split: if_splits)

lemma exec_from_result:
  "exec_from rx s i = Some (idx, e) \<Longrightarrow>
     i \<le> idx \<and> idx \<le> i + length s \<and>
     match_here rx (drop (idx - i) s) = Some (e - idx) \<and> idx \<le> e"
proof (induction s arbitrary: i)
  case Nil
  then show ?case by (auto split: option.splits)
next
  case (Cons c cs)
  show ?case
  proof (cases "match_here rx (c # cs)")
    case None
    with Cons.prems have "exec_from rx cs (Suc i) = Some (idx, e)" by simp
    from Cons.IH [OF this] have h: "Suc i \<le> idx" "idx \<le> Suc i + length cs"
      "match_here rx (drop (idx - Suc i) cs) = Some (e - idx)" "idx \<le> e" by auto
    from h(1) have "idx - i = Suc (idx - Suc i)" by arith
    with h show ?thesis by simp
  next
    case (Some n)
    with Cons.prems show ?thesis by auto
  qed
qed

lemma regex_exec_result:
  assumes "regex_exec rx text li = Some (idx, e)"
  shows "li \<le> idx \<and> idx \<le> e \<and> e \<le> length text \<and>
         match_here rx (drop idx text) = Some (e - idx)"
proof -
  from assms have le: "li \<le> length text"
    and ex: "exec_from rx (drop li text) li = Some (idx, e)"
    by (auto simp: regex_exec_def split: if_splits)
  from exec_from_result [OF ex] have a: "li \<le> idx" "idx \<le> li + length (drop li text)"
    "match_here rx (drop (idx - li) (drop li text)) = Some (e - idx)" "idx \<le> e" by auto
  from a(1,3) have m: "match_here rx (drop idx text) = Some (e - idx)" by simp
  from match_here_le [OF m] a le have "e \<le> length text" by auto
  with a m show ?thesis by simp
qed

lemma exec_loop_result:
  assumes "exec_loop rx allText n lastIndex acc = Some r"
  shows "\<exists>offs. r = acc @ map (occurrence_at allText n) offs \<and> sorted offs \<and>
           list_all (\<lambda>off. lastIndex \<le> off \<and> off \<le> length allText \<and>
                          match_here rx (drop off allText) \<noteq> None) offs"
proof (rule exec_loop.raw_induct
    [where P = "\<lambda>rx allText n lastIndex acc r.
        \<exists>offs. r = acc @ map (occurrence_at allText n) offs \<and> sorted offs \<and>
           list_all (\<lambda>off. lastIndex \<le> off \<and> off \<le> length allText \<and>
                          match_here rx (drop off allText) \<noteq> None) offs",
      OF _ assms])
  fix f :: "regex \<Rightarrow> jsstring \<Rightarrow> nat \<Rightarrow> nat \<Rightarrow> occurrence list \<Rightarrow> occurrence list option"
  fix rx allText n lastIndex selections r
  assume IH: "\<And>rx allText n lastIndex selections y.
      f rx allText n lastIndex selections = Some y \<Longrightarrow>
      \<exists>offs. y = selections @ map (occurrence_at allText n) offs \<and> sorted offs \<and>
           list_all (\<lambda>off. lastIndex \<le> off \<and> off \<le> length allText \<and>
                          match_here rx (drop off allText) \<noteq> None) offs"
  assume body: "(case regex_exec rx allText lastIndex of
        None \<Rightarrow> Some selections
      | Some (idx, e) \<Rightarrow> f rx allText n e (selections @ [occurrence_at allText n idx])) =
      Some r"
  show "\<exists>offs. r = selections @ map (occurrence_at allText n) offs \<and> sorted offs \<and>
           list_all (\<lambda>off. lastIndex \<le> off \<and> off \<le> length allText \<and>
                          match_here rx (drop off allText) \<noteq> None) offs"
  proof (cases "regex_exec rx allText lastIndex")
    case None
    with body have "r = selections" by simp
    then show ?thesis by (intro exI [of _ "[]"]) simp
  next
    case (Some m)
    obtain idx e where m: "m = (idx, e)" by (cases m)
    from Some m body
    have "f rx allText n e (selections @ [occurrence_at allText n idx]) = Some r"
      by simp
    from IH [OF this] obtain offs where oo:
      "r = (selections @ [occurrence_at allText n idx]) @ map (occurrence_at allText n) offs"
      "sorted offs"
      "list_all (\<lambda>off. e \<le> off \<and> off \<le> length allText \<and>
                       match_here rx (drop off allText) \<noteq> None) offs"
      by blast
    from regex_exec_result [of rx allText lastIndex idx e] Some m
    have x: "lastIndex \<le> idx" "idx \<le> e" "e \<le> length allText"
      "match_here rx (drop idx allText) = Some (e - idx)" by auto
    show ?thesis
    proof (intro exI [of _ "idx # offs"] conjI)
      show "r = selections @ map (occurrence_at allText n) (idx # offs)"
        using oo(1) by simp
      show "sorted (idx # offs)" using oo(2,3) x(2) by (auto simp: list_all_iff)
      show "list_all (\<lambda>off. lastIndex \<le> off \<and> off \<le> length allText \<and>
                           match_here rx (drop off allText) \<noteq> None) (idx # offs)"
        using oo(3) x by (auto simp: list_all_iff)
    qed
  qed
qed

lemma slice_prefix: "slice s 0 (int k) = take k s"
  by (simp add: slice_def slice_index_def Let_def min_def)

lemma split_on_not_Nil: "split_on c s \<noteq> []"
  by (induction s) simp_all

lemma length_split_on: "length (split_on c s) = Suc (length (filter (\<lambda>x. x = c) s))"
proof (induction s)
  case Nil
  then show ?case by simp
next
  case (Cons x xs)
  have "length (tl (split_on c xs)) = length (filter (\<lambda>x. x = c) xs)"
    using Cons by simp
  with Cons show ?case by simp
qed

lemma occurs_at_unit: "occurs_at s [c] k = (k < length s \<and> s ! k = c)"
proof (cases "k < length s")
  case True
  then have "drop k s = s ! k # drop (Suc k) s" by (simp add: Cons_nth_drop_Suc)
  then show ?thesis using True by (simp add: occurs_at_def)
next
  case False
  then show ?thesis by (simp add: occurs_at_def)
qed

lemma lastIndexOf_all_unit:
  "lastIndexOf_all s [c] =
     (case find (\<lambda>p. s ! p = c) (rev [0..<length s]) of None \<Rightarrow> - 1 | Some p \<Rightarrow> int p)"
proof -
  have "find (occurs_at s [c]) (rev [0..<Suc (length s)]) =
        find (occurs_at s [c]) (rev [0..<length s])"
    by (simp add: occurs_at_unit)
  also have "\<dots> = find (\<lambda>p. s ! p = c) (rev [0..<length s])"
    by (rule find_cong) (auto simp: occurs_at_unit)
  finally show ?thesis
    by (simp add: lastIndexOf_all_def lastIndexOf_def clamp_index_def)
qed

lemma occurrence_at_offsetToPos:
  assumes "off \<le> length allText"
  shows "sel_start (occurrence_at allText n off) = offsetToPos allText off"
    and "sel_end (occurrence_at allText n off) =
           \<lparr>line = line (offsetToPos allText off),
            ch = ch (offsetToPos allText off) + int n\<rparr>"
proof -
  have "find (\<lambda>p. take off allText ! p = LF) (rev [0..<off]) =
        find (\<lambda>p. allText ! p = LF) (rev [0..<off])"
    by (rule find_cong) auto
  then have l: "lastIndexOf_all (take off allText) [LF] =
      (case nearest_newline_before allText off of None \<Rightarrow> - 1 | Some p \<Rightarrow> int p)"
    using assms by (simp add: lastIndexOf_all_unit nearest_newline_before_def min_def)
  show "sel_start (occurrence_at allText n off) = offsetToPos allText off"
    by (simp add: occurrence_at_def slice_prefix length_split_on l offsetToPos_def
        newlines_before_def split: option.splits)
  show "sel_end (occurrence_at allText n off) =
           \<lparr>line = line (offsetToPos allText off),
            ch = ch (offsetToPos allText off) + int n\<rparr>"
    by (simp add: occurrence_at_def slice_prefix length_split_on l offsetToPos_def
        newlines_before_def split: option.splits)
qed

lemma exec_from_empty: "exec_from [] s i = Some (i, i)"
  by (cases s) simp_all

lemma regex_exec_empty:
  "lastIndex \<le> length allText \<Longrightarrow>
   regex_exec [] allText lastIndex = Some (lastIndex, lastIndex)"
  by (simp add: regex_exec_def exec_from_empty)

lemma exec_loop_empty_no_result:
  assumes "exec_loop rx allText n lastIndex acc = Some r"
  shows "\<not> (rx = [] \<and> lastIndex \<le> length allText)"
proof (rule exec_loop.raw_induct
    [where P = "\<lambda>rx allText n lastIndex acc r. \<not> (rx = [] \<and> lastIndex \<le> length allText)",
      OF _ assms])
  fix f :: "regex \<Rightarrow> jsstring \<Rightarrow> nat \<Rightarrow> nat \<Rightarrow> occurrence list \<Rightarrow> occurrence list option"
  fix rx allText n lastIndex selections r
  assume IH: "\<And>rx allText n lastIndex selections y.
      f rx allText n lastIndex selections = Some y \<Longrightarrow>
      \<not> (rx = [] \<and> lastIndex \<le> length allText)"
  assume body: "(case regex_exec rx allText lastIndex of
        None \<Rightarrow> Some selections
      | Some (idx, e) \<Rightarrow> f rx allText n e (selections @ [occurrence_at allText n idx])) =
      Some r"
  show "\<not> (rx = [] \<and> lastIndex \<le> length allText)"
  proof
    assume a: "rx = [] \<and> lastIndex \<le> length allText"
    then have "f [] allText n lastIndex (selections @ [occurrence_at allText n lastIndex]) =
        Some r"
      using body by (simp add: regex_exec_empty)
    from IH [OF this] a show False by simp
  qed
qed

lemma exec_loop_empty_diverges:
  "lastIndex \<le> length allText \<Longrightarrow> exec_loop [] allText n lastIndex acc = None"
  using exec_loop_empty_no_result [of "[]" allText n lastIndex acc]
  by (cases "exec_loop [] allText n lastIndex acc") auto

text \<open>
  C10, at the failing input: on an empty line with nothing selected the word under the
  cursor is the empty string, the expression built from it matches the empty string at
  index 0 and leaves \<open>lastIndex\<close> at 0, and the loop of the handler never ends.
\<close>

theorem select_all_empty_word_never_returns:
  "textToSelect_of emptyLineEditor = [] \<and> RegExp [] = Inr [] \<and>
   regex_exec [] (getValue emptyLineEditor) 0 = Some (0, 0) \<and>
   handleSelectAllOccurrences False (Some emptyLineEditor) = None"
proof -
  have t: "textToSelect_of emptyLineEditor = []" by code_simp
  have r: "regex_exec [] (getValue emptyLineEditor) 0 = Some (0, 0)"
    by (simp add: regex_exec_empty)
  have h: "handleSelectAllOccurrences False (Some emptyLineEditor) = None"
    by (simp add: handleSelectAllOccurrences_def t exec_loop_empty_diverges)
  from t r h show ?thesis by simp
qed

text \<open>
  C2, at the failing input: with \<open>a.b\<close> selected on the line \<open>a.b axb\<close> the dot of the
  search text matches any character, so the handler selects \<open>a.b\<close> at column 0 and \<open>axb\<close>
  at column 4, while the search text occurs as a literal substring at offset 0 only.
\<close>

theorem select_all_dot_is_wildcard:
  "textToSelect_of dotEditor = js ''a.b'' \<and>
   handleSelectAllOccurrences False (Some dotEditor) =
     Some (Inr (Some (setSelections dotEditor [range_of 0 0 0 3, range_of 0 4 0 7]), True)) \<and>
   literal_occurrences (getValue dotEditor) (textToSelect_of dotEditor) = [0]"
  by code_simp

text \<open>
  C1, at the failing input: with the two lines \<open>a\<close> and \<open>b\<close> selected the search text is
  \<open>a\<close>, a line break, \<open>b\<close>; its match at offset 0 is given the end \<open>{line: 0, ch: 3}\<close>,
  on the line of the start, while the coordinate of offset 0 + 3 is \<open>{line: 1, ch: 1}\<close>.
\<close>

theorem select_all_multiline_end:
  "textToSelect_of twoLineEditor = [97, 10, 98] \<and>
   handleSelectAllOccurrences False (Some twoLineEditor) =
     Some (Inr (Some (setSelections twoLineEditor [range_of 0 0 0 3]), True)) \<and>
   offsetToPos (getValue twoLineEditor) (0 + length (textToSelect_of twoLineEditor)) =
     \<lparr>line = 1, ch = 1\<rparr>"
  by code_simp

text \<open>
  X2, the example of the specification: in the document \<open>ab\<close>, \<open>cab\<close>, \<open>abc\<close> the search text
  \<open>ab\<close> is selected at \<open>{0,0}-{0,2}\<close>, \<open>{1,1}-{1,3}\<close> and \<open>{2,0}-{2,2}\<close>, in this order.
\<close>

theorem select_all_ab_example:
  "listSelections abEditor = [range_of 0 0 0 2] \<and> textToSelect_of abEditor = js ''ab'' \<and>
   getValue abEditor = [97, 98, 10, 99, 97, 98, 10, 97, 98, 99] \<and>
   handleSelectAllOccurrences False (Some abEditor) =
     Some (Inr (Some (setSelections abEditor
       [range_of 0 0 0 2, range_of 1 1 1 3, range_of 2 0 2 2]), True))"
  by code_simp

lemma match_here_zero: "match_here rx s = Some 0 \<Longrightarrow> match_here rx [] = Some 0"
proof (induction rx s rule: match_here.induct)
  case (5 a ts c cs)
  then show ?case by (auto split: if_splits option.splits)
qed (auto split: if_splits)

lemma match_here_positive:
  assumes "match_here rx [] = None" "match_here rx s = Some n"
  shows "0 < n"
proof (rule ccontr)
  assume "\<not> 0 < n"
  with assms(2) have "match_here rx s = Some 0" by simp
  from match_here_zero [OF this] assms(1) show False by simp
qed

lemma exec_loop_terminates:
  assumes "match_here rx [] = None"
  shows "\<exists>r. exec_loop rx allText n lastIndex acc = Some r"
proof (induction "Suc (length allText) - lastIndex" arbitrary: lastIndex acc rule: less_induct)
  case less
  show ?case
  proof (cases "regex_exec rx allText lastIndex")
    case None
    then show ?thesis by (subst exec_loop.simps) simp
  next
    case (Some m)
    obtain idx e where m: "m = (idx, e)" by (cases m)
    from regex_exec_result [of rx allText lastIndex idx e] Some m
    have x: "lastIndex \<le> idx" "idx \<le> e" "e \<le> length allText"
      "match_here rx (drop idx allText) = Some (e - idx)" by auto
    from match_here_positive [OF assms x(4)] have "idx < e" by simp
    with x have "Suc (length allText) - e < Suc (length allText) - lastIndex" by arith
    from less [OF this] obtain r where
      "exec_loop rx allText n e (acc @ [occurrence_at allText n idx]) = Some r" by blast
    with Some m show ?thesis by (subst exec_loop.simps) simp
  qed
qed


lemma select_all_mapped_lemma:
  assumes "handleSelectAllOccurrences False (Some ed) = Some (Inr (Some ed', True))"
  shows "\<exists>rx offs. RegExp (textToSelect_of ed) = Inr rx \<and> sorted offs \<and>
     list_all (\<lambda>off. off \<le> length (getValue ed) \<and>
                    match_here rx (drop off (getValue ed)) \<noteq> None) offs \<and>
     (if offs = [] then ed' = ed
      else listSelections ed' =
        map (\<lambda>off. \<lparr>anchor = offsetToPos (getValue ed) off,
                     head = \<lparr>line = line (offsetToPos (getValue ed) off),
                             ch = ch (offsetToPos (getValue ed) off) +
                                  int (length (textToSelect_of ed))\<rparr>\<rparr>) offs)"
proof -
  define t where "t = textToSelect_of ed"
  define v where "v = getValue ed"
  from assms obtain rx where rx: "RegExp t = Inr rx"
    by (cases "RegExp t") (auto simp: handleSelectAllOccurrences_def Let_def t_def)
  from assms rx obtain sels where
    l: "exec_loop rx v (length t) 0 [] = Some sels"
    and e: "ed' = (if 0 < length sels
          then setSelections ed (map (\<lambda>sel. \<lparr>anchor = sel_start sel, head = sel_end sel\<rparr>) sels)
          else ed)"
    by (cases "exec_loop rx v (length t) 0 []")
      (auto simp: handleSelectAllOccurrences_def Let_def t_def v_def)
  from exec_loop_result [OF l] obtain offs where
    o: "sels = map (occurrence_at v (length t)) offs" "sorted offs"
      "list_all (\<lambda>off. 0 \<le> off \<and> off \<le> length v \<and> match_here rx (drop off v) \<noteq> None) offs"
    by auto
  have m: "map (\<lambda>sel. \<lparr>anchor = sel_start sel, head = sel_end sel\<rparr>) sels =
      map (\<lambda>off. \<lparr>anchor = offsetToPos v off,
                   head = \<lparr>line = line (offsetToPos v off),
                           ch = ch (offsetToPos v off) + int (length t)\<rparr>\<rparr>) offs"
    unfolding o(1) map_map
  proof (rule map_cong [OF refl])
    fix off assume "off \<in> set offs"
    with o(3) have "off \<le> length v" by (simp add: list_all_iff)
    from occurrence_at_offsetToPos [OF this, of "length t"]
    show "((\<lambda>sel. \<lparr>anchor = sel_start sel, head = sel_end sel\<rparr>) \<circ> occurrence_at v (length t)) off =
        \<lparr>anchor = offsetToPos v off,
         head = \<lparr>line = line (offsetToPos v off), ch = ch (offsetToPos v off) + int (length t)\<rparr>\<rparr>"
      by simp
  qed
  have r: "if offs = [] then ed' = ed
      else listSelections ed' =
        map (\<lambda>off. \<lparr>anchor = offsetToPos v off,
                     head = \<lparr>line = line (offsetToPos v off),
                             ch = ch (offsetToPos v off) + int (length t)\<rparr>\<rparr>) offs"
  proof (cases "offs = []")
    case True
    then show ?thesis using e o(1) by simp
  next
    case False
    then have "sels \<noteq> []" using o(1) by simp
    then show ?thesis
      using False e m listSelections_setSelections
        [of "map (\<lambda>sel. \<lparr>anchor = sel_start sel, head = sel_end sel\<rparr>) sels" ed]
      by simp
  qed
  from o(3) have "list_all (\<lambda>off. off \<le> length v \<and> match_here rx (drop off v) \<noteq> None) offs"
    by (simp add: list_all_iff)
  with rx o(2) r show ?thesis unfolding t_def v_def by blast
qed

lemma select_all_returns_lemma:
  assumes "RegExp (textToSelect_of ed) = Inr rx" "match_here rx [] = None"
  shows "\<exists>ed'. handleSelectAllOccurrences False (Some ed) = Some (Inr (Some ed', True))"
proof -
  from exec_loop_terminates [OF assms(2)] obtain r where
    "exec_loop rx (getValue ed) (length (textToSelect_of ed)) 0 [] = Some r" by blast
  then show ?thesis using assms(1)
    by (simp add: handleSelectAllOccurrences_def Let_def)
qed

lemma quantifier_is_syntax: "is_quantifier_char c \<Longrightarrow> is_syntax_char c"
  by (auto simp: is_quantifier_char_def is_syntax_char_def)

lemma RegExp_literal:
  "list_all (\<lambda>c. \<not> is_syntax_char c) t \<Longrightarrow>
   RegExp t = Inr (map (\<lambda>c. Once (PatternCharacter c)) t)"
proof (induction t)
  case Nil
  then show ?case by simp
next
  case (Cons c cs)
  then have c: "\<not> is_syntax_char c" "\<not> is_quantifier_char c" "c \<noteq> 46"
    using quantifier_is_syntax by (auto simp: is_syntax_char_def)
  show ?case
  proof (cases cs)
    case Nil
    then show ?thesis using c by (simp add: atom_of_def)
  next
    case (Cons q rest)
    with Cons.prems have q: "\<not> is_syntax_char q" by simp
    then have q': "\<not> is_quantifier_char q" "q \<noteq> 42"
      using quantifier_is_syntax by (auto simp: is_syntax_char_def)
    from Cons.IH Cons.prems have "RegExp cs = Inr (map (\<lambda>c. Once (PatternCharacter c)) cs)"
      by simp
    then show ?thesis using c q' Cons by (simp add: atom_of_def)
  qed
qed

lemma match_here_literal:
  "match_here (map (\<lambda>c. Once (PatternCharacter c)) t) s =
     (if occurs_at s t 0 then Some (length t) else None)"
proof (induction t arbitrary: s)
  case Nil
  then show ?case by (simp add: occurs_at_def)
next
  case (Cons c cs)
  show ?case
  proof (cases s)
    case Nil
    then show ?thesis by (simp add: occurs_at_def)
  next
    case (Cons x xs)
    then show ?thesis using Cons.IH [of xs] by (auto simp: occurs_at_def)
  qed
qed

lemma occurs_at_drop: "occurs_at (drop k s) t 0 = occurs_at s t k"
  by (simp add: occurs_at_def)

lemma select_all_literal_lemma:
  assumes "list_all (\<lambda>c. \<not> is_syntax_char c) (textToSelect_of ed)"
    and "textToSelect_of ed \<noteq> []"
  shows "\<exists>ed' offs. handleSelectAllOccurrences False (Some ed) = Some (Inr (Some ed', True)) \<and>
     sorted offs \<and>
     list_all (\<lambda>off. off \<in> set (literal_occurrences (getValue ed) (textToSelect_of ed))) offs \<and>
     (if offs = [] then ed' = ed
      else listSelections ed' =
        map (\<lambda>off. \<lparr>anchor = offsetToPos (getValue ed) off,
                     head = \<lparr>line = line (offsetToPos (getValue ed) off),
                             ch = ch (offsetToPos (getValue ed) off) +
                                  int (length (textToSelect_of ed))\<rparr>\<rparr>) offs)"
proof -
  define t where "t = textToSelect_of ed"
  define rx where "rx = map (\<lambda>c. Once (PatternCharacter c)) t"
  have rx: "RegExp (textToSelect_of ed) = Inr rx"
    unfolding rx_def t_def by (rule RegExp_literal [OF assms(1)])
  have "\<not> occurs_at [] t 0" using assms(2) by (auto simp: occurs_at_def t_def)
  then have e: "match_here rx [] = None" by (simp add: rx_def match_here_literal)
  from select_all_returns_lemma [OF rx e] obtain ed' where
    h: "handleSelectAllOccurrences False (Some ed) = Some (Inr (Some ed', True))" by blast
  from select_all_mapped_lemma [OF h] rx obtain offs where
    o: "sorted offs"
      "list_all (\<lambda>off. off \<le> length (getValue ed) \<and>
                    match_here rx (drop off (getValue ed)) \<noteq> None) offs"
      "if offs = [] then ed' = ed
      else listSelections ed' =
        map (\<lambda>off. \<lparr>anchor = offsetToPos (getValue ed) off,
                     head = \<lparr>line = line (offsetToPos (getValue ed) off),
                             ch = ch (offsetToPos (getValue ed) off) +
                                  int (length (textToSelect_of ed))\<rparr>\<rparr>) offs"
    by auto
  have "list_all (\<lambda>off. off \<in> set (literal_occurrences (getValue ed) t)) offs"
    using o(2)
    by (auto simp: list_all_iff literal_occurrences_def rx_def match_here_literal occurs_at_drop
        simp del: upt_Suc split: if_splits)
  with h o(1,3) show ?thesis unfolding t_def by blast
qed

text \<open>
  X1: whenever the handler returns, the selections it sets are, in ascending order of
  their offsets, one for each offset at which \<open>exec\<close> reported a match; the start of each
  is the specification's coordinate of the offset, and the end is on the same line, the
  length of the search text further right. No match leaves the editor as it is.
\<close>

theorem select_all_selections_mapped:
  assumes "handleSelectAllOccurrences False (Some ed) = Some (Inr (Some ed', True))"
  shows "\<exists>rx offs. RegExp (textToSelect_of ed) = Inr rx \<and> sorted offs \<and>
     list_all (\<lambda>off. off \<le> length (getValue ed) \<and>
                    match_here rx (drop off (getValue ed)) \<noteq> None) offs \<and>
     (if offs = [] then ed' = ed
      else listSelections ed' =
        map (\<lambda>off. \<lparr>anchor = offsetToPos (getValue ed) off,
                     head = \<lparr>line = line (offsetToPos (getValue ed) off),
                             ch = ch (offsetToPos (getValue ed) off) +
                                  int (length (textToSelect_of ed))\<rparr>\<rparr>) offs)"
  using assms by (rule select_all_mapped_lemma)

theorem select_all_selections_mapped_witness:
  "\<exists>rx offs. RegExp (textToSelect_of abEditor) = Inr rx \<and> sorted offs \<and>
     list_all (\<lambda>off. off \<le> length (getValue abEditor) \<and>
                    match_here rx (drop off (getValue abEditor)) \<noteq> None) offs \<and>
     (if offs = []
      then setSelections abEditor [range_of 0 0 0 2, range_of 1 1 1 3, range_of 2 0 2 2] = abEditor
      else listSelections
             (setSelections abEditor [range_of 0 0 0 2, range_of 1 1 1 3, range_of 2 0 2 2]) =
        map (\<lambda>off. \<lparr>anchor = offsetToPos (getValue abEditor) off,
                     head = \<lparr>line = line (offsetToPos (getValue abEditor) off),
                             ch = ch (offsetToPos (getValue abEditor) off) +
                                  int (length (textToSelect_of abEditor))\<rparr>\<rparr>) offs)"
proof -
  have h: "handleSelectAllOccurrences False (Some abEditor) =
     Some (Inr (Some (setSelections abEditor
       [range_of 0 0 0 2, range_of 1 1 1 3, range_of 2 0 2 2]), True))"
    by code_simp
  from select_all_selections_mapped [OF h] show ?thesis .
qed

text \<open>
  X3: for a search text whose pattern does not match the empty string, every match moves
  \<open>lastIndex\<close> forward, the loop ends, and the handler returns \<open>true\<close>.
\<close>

theorem select_all_returns:
  assumes "RegExp (textToSelect_of ed) = Inr rx" "match_here rx [] = None"
  shows "\<exists>ed'. handleSelectAllOccurrences False (Some ed) = Some (Inr (Some ed', True))"
  using assms by (rule select_all_returns_lemma)

theorem select_all_returns_witness:
  "RegExp (textToSelect_of dotEditor) =
     Inr [Once (PatternCharacter 97), Once AnyChar, Once (PatternCharacter 98)] \<and>
   match_here [Once (PatternCharacter 97), Once AnyChar, Once (PatternCharacter 98)] [] = None \<and>
   (\<exists>ed'. handleSelectAllOccurrences False (Some dotEditor) = Some (Inr (Some ed', True)))"
proof -
  have a: "RegExp (textToSelect_of dotEditor) =
     Inr [Once (PatternCharacter 97), Once AnyChar, Once (PatternCharacter 98)]"
    by code_simp
  have b: "match_here [Once (PatternCharacter 97), Once AnyChar, Once (PatternCharacter 98)] [] = None"
    by simp
  from select_all_returns [OF a b] a b show ?thesis by blast
qed

text \<open>
  X4: for a search text that is not empty and has no syntax character of the pattern
  language, the handler returns and every selection it sets starts at an offset where
  the search text occurs literally in the document.
\<close>

theorem select_all_literal:
  assumes "list_all (\<lambda>c. \<not> is_syntax_char c) (textToSelect_of ed)"
    and "textToSelect_of ed \<noteq> []"
  shows "\<exists>ed' offs. handleSelectAllOccurrences False (Some ed) = Some (Inr (Some ed', True)) \<and>
     sorted offs \<and>
     list_all (\<lambda>off. off \<in> set (literal_occurrences (getValue ed) (textToSelect_of ed))) offs \<and>
     (if offs = [] then ed' = ed
      else listSelections ed' =
        map (\<lambda>off. \<lparr>anchor = offsetToPos (getValue ed) off,
                     head = \<lparr>line = line (offsetToPos (getValue ed) off),
                             ch = ch (offsetToPos (getValue ed) off) +
                                  int (length (textToSelect_of ed))\<rparr>\<rparr>) offs)"
  using assms by (rule select_all_literal_lemma)

theorem select_all_literal_witness:
  "list_all (\<lambda>c. \<not> is_syntax_char c) (textToSelect_of abEditor) \<and>
   textToSelect_of abEditor \<noteq> [] \<and>
   (\<exists>ed' offs. handleSelectAllOccurrences False (Some abEditor) = Some (Inr (Some ed', True)) \<and>
     sorted offs \<and>
     list_all (\<lambda>off. off \<in> set (literal_occurrences (getValue abEditor)
                                   (textToSelect_of abEditor))) offs \<and>
     (if offs = [] then ed' = abEditor
      else listSelections ed' =
        map (\<lambda>off. \<lparr>anchor = offsetToPos (getValue abEditor) off,
                     head = \<lparr>line = line (offsetToPos (getValue abEditor) off),
                             ch = ch (offsetToPos (getValue abEditor) off) +
                                  int (length (textToSelect_of abEditor))\<rparr>\<rparr>) offs))"
proof -
  have a: "list_all (\<lambda>c. \<not> is_syntax_char c) (textToSelect_of abEditor)" by code_simp
  have b: "textToSelect_of abEditor \<noteq> []" by code_simp
  from select_all_literal [OF a b] a b show ?thesis by blast
qed

subsection \<open>Insert cursor below and above\<close>

lemma foldl_cursorBelow_each:
  assumes "list_all (\<lambda>s. 0 \<le> line (anchor s) \<and> line (anchor s) < lineCount ed) sels"
  shows "foldl (cursorBelow_each ed) acc sels =
     acc @ concat (map (\<lambda>s. let adjacentLine = line (anchor s) + 1
                        in if 0 \<le> adjacentLine \<and> adjacentLine < lineCount ed
                           then [\<lparr>line = adjacentLine,
                                  ch = min (ch (anchor s))
                                         (int (length (doc ed ! nat adjacentLine)))\<rparr>]
                           else []) sels)"
  using assms
proof (induction sels arbitrary: acc)
  case Nil
  then show ?case by simp
next
  case (Cons s sels)
  then show ?case
    by (simp add: cursorBelow_each_def getLine_def Let_def)
qed

lemma foldl_cursorAbove_each:
  assumes "list_all (\<lambda>s. 0 \<le> line (anchor s) \<and> line (anchor s) < lineCount ed) sels"
  shows "foldl (cursorAbove_each ed) acc sels =
     acc @ concat (map (\<lambda>s. let adjacentLine = line (anchor s) + (- 1)
                        in if 0 \<le> adjacentLine \<and> adjacentLine < lineCount ed
                           then [\<lparr>line = adjacentLine,
                                  ch = min (ch (anchor s))
                                         (int (length (doc ed ! nat adjacentLine)))\<rparr>]
                           else []) sels)"
  using assms
proof (induction sels arbitrary: acc)
  case Nil
  then show ?case by simp
next
  case (Cons s sels)
  then show ?case
    by (simp add: cursorAbove_each_def getLine_def Let_def)
qed

lemma fan_out_not_Nil: "fan_out ed d \<noteq> []"
  by (simp add: fan_out_def listSelections_def)

lemma collapse_anchors:
  "map (\<lambda>pos. \<lparr>anchor = pos, head = pos\<rparr>) (map anchor sels) =
   map (\<lambda>s. \<lparr>anchor = \<lparr>line = line (anchor s), ch = ch (anchor s)\<rparr>,
              head = \<lparr>line = line (anchor s), ch = ch (anchor s)\<rparr>\<rparr>) sels"
  by (induction sels) simp_all

lemma collapse_adjacent:
  "map (\<lambda>pos. \<lparr>anchor = pos, head = pos\<rparr>)
     (concat (map (\<lambda>s. let adjacentLine = line (anchor s) + d
                        in if 0 \<le> adjacentLine \<and> adjacentLine < lineCount ed
                           then [\<lparr>line = adjacentLine,
                                  ch = min (ch (anchor s))
                                         (int (length (doc ed ! nat adjacentLine)))\<rparr>]
                           else []) sels)) =
   concat (map (\<lambda>s. let adjacentLine = line (anchor s) + d
                      in if 0 \<le> adjacentLine \<and> adjacentLine < lineCount ed
                         then [\<lparr>anchor = \<lparr>line = adjacentLine,
                                           ch = min (ch (anchor s))
                                                  (int (length (doc ed ! nat adjacentLine)))\<rparr>,
                                 head = \<lparr>line = adjacentLine,
                                         ch = min (ch (anchor s))
                                                (int (length (doc ed ! nat adjacentLine)))\<rparr>\<rparr>]
                         else []) sels)"
  by (induction sels) (simp_all add: Let_def)

text \<open>
  C5: for every document and every selection set whose anchors are on lines of the
  document, insert-cursor-below and insert-cursor-above set the selections to the
  anchor of every selection, in their order, followed by one collapsed selection for each
  selection whose adjacent line is in the document, on that line and at the smaller of the
  anchor's column and the length of that line; a selection whose adjacent line is outside
  the document adds nothing. Every selection of the result has its anchor and its head at
  the same position. The document is unchanged and the editor is focused.
\<close>

theorem insert_cursor_fan_out:
  assumes "list_all (\<lambda>s. 0 \<le> line (anchor s) \<and> line (anchor s) < lineCount ed)
             (listSelections ed)"
  shows "(\<exists>ed'. handleInsertCursorBelow False (Some ed) = (Some ed', True) \<and>
            listSelections ed' = fan_out ed 1 \<and> doc ed' = doc ed \<and> focused ed') \<and>
         (\<exists>ed'. handleInsertCursorAbove False (Some ed) = (Some ed', True) \<and>
            listSelections ed' = fan_out ed (- 1) \<and> doc ed' = doc ed \<and> focused ed')"
proof (intro conjI)
  have b: "handleInsertCursorBelow False (Some ed) =
      (Some (focus (setSelections ed (fan_out ed 1))), True)"
    unfolding fan_out_def collapse_anchors [symmetric] collapse_adjacent [symmetric]
    by (simp add: handleInsertCursorBelow_def foldl_cursorBelow_each [OF assms])
  have "listSelections (focus (setSelections ed (fan_out ed 1))) = fan_out ed 1"
    using listSelections_setSelections [OF fan_out_not_Nil, of ed ed 1]
    by (simp add: focus_def listSelections_def)
  moreover have "doc (focus (setSelections ed (fan_out ed 1))) = doc ed"
    by (simp add: focus_def setSelections_def)
  moreover have "focused (focus (setSelections ed (fan_out ed 1)))"
    by (simp add: focus_def)
  ultimately show "\<exists>ed'. handleInsertCursorBelow False (Some ed) = (Some ed', True) \<and>
            listSelections ed' = fan_out ed 1 \<and> doc ed' = doc ed \<and> focused ed'"
    using b by blast
next
  have b: "handleInsertCursorAbove False (Some ed) =
      (Some (focus (setSelections ed (fan_out ed (- 1)))), True)"
    unfolding fan_out_def collapse_anchors [symmetric] collapse_adjacent [symmetric]
    by (simp add: handleInsertCursorAbove_def foldl_cursorAbove_each [OF assms])
  have "listSelections (focus (setSelections ed (fan_out ed (- 1)))) = fan_out ed (- 1)"
    using listSelections_setSelections [OF fan_out_not_Nil, of ed ed "- 1"]
    by (simp add: focus_def listSelections_def)
  moreover have "doc (focus (setSelections ed (fan_out ed (- 1)))) = doc ed"
    by (simp add: focus_def setSelections_def)
  moreover have "focused (focus (setSelections ed (fan_out ed (- 1))))"
    by (simp add: focus_def)
  ultimately show "\<exists>ed'. handleInsertCursorAbove False (Some ed) = (Some ed', True) \<and>
            listSelections ed' = fan_out ed (- 1) \<and> doc ed' = doc ed \<and> focused ed'"
    using b by blast
qed

theorem insert_cursor_fan_out_witness:
  "list_all (\<lambda>s. 0 \<le> line (anchor s) \<and> line (anchor s) < lineCount clampEditor)
     (listSelections clampEditor) \<and>
   length (doc clampEditor ! 0) = 10 \<and> length (doc clampEditor ! 1) = 3 \<and>
   (\<exists>ed'. handleInsertCursorBelow False (Some clampEditor) = (Some ed', True) \<and>
      listSelections ed' =
        [\<lparr>anchor = \<lparr>line = 0, ch = 5\<rparr>, head = \<lparr>line = 0, ch = 5\<rparr>\<rparr>,
         \<lparr>anchor = \<lparr>line = 1, ch = 3\<rparr>, head = \<lparr>line = 1, ch = 3\<rparr>\<rparr>] \<and>
      doc ed' = doc clampEditor \<and> focused ed') \<and>
   (\<exists>ed'. handleInsertCursorAbove False (Some clampEditor) = (Some ed', True) \<and>
      listSelections ed' =
        [\<lparr>anchor = \<lparr>line = 0, ch = 5\<rparr>, head = \<lparr>line = 0, ch = 5\<rparr>\<rparr>] \<and>
      doc ed' = doc clampEditor \<and> focused ed')"
proof -
  have w: "list_all (\<lambda>s. 0 \<le> line (anchor s) \<and> line (anchor s) < lineCount clampEditor)
     (listSelections clampEditor)"
    by code_simp
  have l: "length (doc clampEditor ! 0) = 10 \<and> length (doc clampEditor ! 1) = 3"
    by code_simp
  have f1: "fan_out clampEditor 1 =
      [\<lparr>anchor = \<lparr>line = 0, ch = 5\<rparr>, head = \<lparr>line = 0, ch = 5\<rparr>\<rparr>,
       \<lparr>anchor = \<lparr>line = 1, ch = 3\<rparr>, head = \<lparr>line = 1, ch = 3\<rparr>\<rparr>]"
    by code_simp
  have f2: "fan_out clampEditor (- 1) =
      [\<lparr>anchor = \<lparr>line = 0, ch = 5\<rparr>, head = \<lparr>line = 0, ch = 5\<rparr>\<rparr>]"
    by code_simp
  from insert_cursor_fan_out [OF w] w l show ?thesis
    unfolding f1 f2 by blast
qed

subsection \<open>Select line\<close>

lemma press_first:
  assumes "\<not> somethingSelected e"
  shows "press_select_line (p, v) e =
     (p\<lparr>selectLineCount := 1, lastSelectedLine := line (getCursor e)\<rparr>,
      Some (setSelection e \<lparr>line = line (getCursor e), ch = 0\<rparr>
                           \<lparr>line = line (getCursor e) + 1, ch = 0\<rparr>))"
  using assms by (simp add: press_select_line_def handleSelectLine_def Let_def)

lemma press_next:
  assumes "somethingSelected e" "selectLineCount p = j" "0 < j"
  shows "press_select_line (p, v) e =
     (p\<lparr>selectLineCount := j + 1\<rparr>,
      Some (setSelection e \<lparr>line = lastSelectedLine p, ch = 0\<rparr>
                           \<lparr>line = lastSelectedLine p + j + 1, ch = 0\<rparr>))"
  using assms by (simp add: press_select_line_def handleSelectLine_def Let_def)

lemma presses_next:
  assumes "list_all somethingSelected es" "selectLineCount p = j" "0 < j"
  shows "foldl press_select_line (p, v) es =
     (p\<lparr>selectLineCount := j + int (length es)\<rparr>,
      if es = [] then v
      else Some (setSelection (last es) \<lparr>line = lastSelectedLine p, ch = 0\<rparr>
                  \<lparr>line = lastSelectedLine p + j + int (length es), ch = 0\<rparr>))"
  using assms
proof (induction es arbitrary: p v j)
  case Nil
  then show ?case by simp
next
  case (Cons e es)
  have s: "press_select_line (p, v) e =
     (p\<lparr>selectLineCount := j + 1\<rparr>,
      Some (setSelection e \<lparr>line = lastSelectedLine p, ch = 0\<rparr>
                           \<lparr>line = lastSelectedLine p + j + 1, ch = 0\<rparr>))"
    using Cons.prems by (intro press_next) simp_all
  have "foldl press_select_line (p\<lparr>selectLineCount := j + 1\<rparr>,
      Some (setSelection e \<lparr>line = lastSelectedLine p, ch = 0\<rparr>
                           \<lparr>line = lastSelectedLine p + j + 1, ch = 0\<rparr>)) es =
     (p\<lparr>selectLineCount := j + 1\<rparr>\<lparr>selectLineCount := (j + 1) + int (length es)\<rparr>,
      if es = [] then Some (setSelection e \<lparr>line = lastSelectedLine p, ch = 0\<rparr>
                           \<lparr>line = lastSelectedLine p + j + 1, ch = 0\<rparr>)
      else Some (setSelection (last es) \<lparr>line = lastSelectedLine (p\<lparr>selectLineCount := j + 1\<rparr>), ch = 0\<rparr>
                  \<lparr>line = lastSelectedLine (p\<lparr>selectLineCount := j + 1\<rparr>) + (j + 1) + int (length es), ch = 0\<rparr>))"
    using Cons.prems by (intro Cons.IH) simp_all
  with s show ?case by (simp add: add.assoc)
qed

lemma count_lines_in_range:
  "length (filter (\<lambda>i. L \<le> i \<and> i < L + k) [0..<N]) = min k (N - L)"
proof -
  have "length (filter (\<lambda>i. L \<le> i \<and> i < L + k) [0..<N]) =
        card {i. i < N \<and> L \<le> i \<and> i < L + k}"
    by (simp add: length_filter_conv_card cong: conj_cong)
  also have "{i. i < N \<and> L \<le> i \<and> i < L + k} = {L..<min N (L + k)}"
    by auto
  also have "card \<dots> = min k (N - L)" by simp
  finally show ?thesis .
qed

lemma lines_covered_range:
  "lines_covered N (range_of (int L) 0 (int L + int k) 0) = min k (N - L)"
proof -
  have "(\<lambda>i. pos_le (anchor (range_of (int L) 0 (int L + int k) 0)) \<lparr>line = int i, ch = 0\<rparr> \<and>
             pos_le \<lparr>line = int i + 1, ch = 0\<rparr> (head (range_of (int L) 0 (int L + int k) 0))) =
        (\<lambda>i. L \<le> i \<and> i < L + k)"
    by (rule ext) (auto simp: pos_le_def range_of_def)
  then show ?thesis
    by (simp add: lines_covered_def count_lines_in_range)
qed

text \<open>
  C3, as stated, fails on the code. A run may begin with a selection present: on a fresh
  load, or after the \<open>mousedown\<close> listener has run, the text is selected by dragging
  and line-select is invoked. That invocation is the first of a run of \<open>k = 1\<close> with
  no reset in it: it is no invocation with an empty selection, and no pointer-down event
  comes after the run has begun. With the cursor on line 1 of a document of three lines,
  C3 gives a selection anchored at column 0 of line 1 that covers \<open>min 1 (3 - 1) = 1\<close>
  line. The handler asks for the selection from line -1, column 0 to line 0, column 0,
  which is not anchored on the cursor's line and covers no line of the document: the
  anchor line \<open>lastSelectedLine\<close> is -1 and is set to the cursor's line only when
  nothing is selected.
\<close>

theorem select_line_run_with_selection_present:
  "somethingSelected draggedEditor \<and>
   line (getCursor draggedEditor) = 1 \<and>
   lineCount draggedEditor = 3 \<and>
   handleSelectLine False (mousedown initial_plugin) (Some draggedEditor) =
     (\<lparr>selectLineCount = 1, lastSelectedLine = - 1\<rparr>,
      Some \<lparr>doc = [js ''one'', js ''two'', js ''three''], secondary = [],
            primary = \<lparr>anchor = \<lparr>line = - 1, ch = 0\<rparr>, head = \<lparr>line = 0, ch = 0\<rparr>\<rparr>,
            focused = True\<rparr>,
      True) \<and>
   handleSelectLine False initial_plugin (Some draggedEditor) =
     handleSelectLine False (mousedown initial_plugin) (Some draggedEditor) \<and>
   \<lparr>anchor = \<lparr>line = - 1, ch = 0\<rparr>, head = \<lparr>line = 0, ch = 0\<rparr>\<rparr> \<noteq>
     \<lparr>anchor = \<lparr>line = 1, ch = 0\<rparr>, head = \<lparr>line = 2, ch = 0\<rparr>\<rparr> \<and>
   lines_covered 3 \<lparr>anchor = \<lparr>line = - 1, ch = 0\<rparr>, head = \<lparr>line = 0, ch = 0\<rparr>\<rparr> = 0 \<and>
   lines_covered 3 \<lparr>anchor = \<lparr>line = 1, ch = 0\<rparr>, head = \<lparr>line = 2, ch = 0\<rparr>\<rparr> = 1"
  by code_simp

text \<open>
  X8: a run of \<open>k\<close> invocations of line-select that begins with nothing selected, that
  is, a first invocation with nothing selected and the cursor on line \<open>startLine\<close>, and
  \<open>k - 1\<close> further invocations at each of which the host reports a selection, with
  no \<open>mousedown\<close> in between. The editors are the ones the host presents at each
  invocation, and the plugin state before the run is arbitrary. After the run the
  selection is anchored at column 0 of \<open>startLine\<close> and its head is at column 0 of
  line \<open>startLine + k\<close>: the anchor is the same for every \<open>k\<close> and the head is one
  line further down with each invocation. Of a document of \<open>N\<close> lines this range covers
  \<open>min k (N - startLine)\<close> lines in full.
\<close>

theorem select_line_run:
  assumes "\<not> somethingSelected e1"
    and "line (getCursor e1) = int startLine"
    and "list_all somethingSelected rest"
    and "k = length (e1 # rest)"
    and "N = length (doc (last (e1 # rest)))"
  shows "\<exists>p' ed'. foldl press_select_line (p, v) (e1 # rest) = (p', Some ed') \<and>
           selectLineCount p' = int k \<and> lastSelectedLine p' = int startLine \<and>
           listSelections ed' = [range_of (int startLine) 0 (int startLine + int k) 0] \<and>
           doc ed' = doc (last (e1 # rest)) \<and>
           lines_covered N (primary ed') = min k (N - startLine)"
proof -
  let ?p1 = "p\<lparr>selectLineCount := 1, lastSelectedLine := int startLine\<rparr>"
  let ?v1 = "Some (setSelection e1 \<lparr>line = int startLine, ch = 0\<rparr>
                           \<lparr>line = int startLine + 1, ch = 0\<rparr>)"
  have f: "press_select_line (p, v) e1 = (?p1, ?v1)"
    using press_first [OF assms(1), of p v] assms(2) by simp
  have r: "foldl press_select_line (?p1, ?v1) rest =
     (?p1\<lparr>selectLineCount := 1 + int (length rest)\<rparr>,
      if rest = [] then ?v1
      else Some (setSelection (last rest) \<lparr>line = lastSelectedLine ?p1, ch = 0\<rparr>
                  \<lparr>line = lastSelectedLine ?p1 + 1 + int (length rest), ch = 0\<rparr>))"
    using assms(3) by (intro presses_next) simp_all
  let ?ed = "setSelection (last (e1 # rest)) \<lparr>line = int startLine, ch = 0\<rparr>
                  \<lparr>line = int startLine + int k, ch = 0\<rparr>"
  have run: "foldl press_select_line (p, v) (e1 # rest) =
      (?p1\<lparr>selectLineCount := int k\<rparr>, Some ?ed)"
    using f r assms(4) by (cases "rest = []") (simp_all add: ac_simps)
  have sel: "listSelections ?ed = [range_of (int startLine) 0 (int startLine + int k) 0]"
    by (simp add: setSelection_def setSelections_def listSelections_def range_of_def)
  have prim: "primary ?ed = range_of (int startLine) 0 (int startLine + int k) 0"
    by (simp add: setSelection_def setSelections_def range_of_def)
  have d: "doc ?ed = doc (last (e1 # rest))"
    by (simp add: setSelection_def setSelections_def)
  have c: "lines_covered N (primary ?ed) = min k (N - startLine)"
    unfolding prim by (rule lines_covered_range)
  from run sel d c show ?thesis by simp
qed

theorem select_line_run_witness:
  "\<not> somethingSelected threeLineEditor \<and>
   line (getCursor threeLineEditor) = int 1 \<and>
   list_all somethingSelected [threeLineSelected] \<and>
   (\<exists>p' ed'. foldl press_select_line (initial_plugin, None)
                [threeLineEditor, threeLineSelected] = (p', Some ed') \<and>
      selectLineCount p' = 2 \<and> lastSelectedLine p' = 1 \<and>
      listSelections ed' = [range_of 1 0 3 0] \<and>
      doc ed' = doc threeLineSelected \<and>
      lines_covered 3 (primary ed') = 2)"
proof -
  have a: "\<not> somethingSelected threeLineEditor" by code_simp
  have b: "line (getCursor threeLineEditor) = int 1" by code_simp
  have c: "list_all somethingSelected [threeLineSelected]" by code_simp
  have d: "3 = length (doc (last [threeLineEditor, threeLineSelected]))" by code_simp
  have k: "(2::nat) = length [threeLineEditor, threeLineSelected]" by simp
  from select_line_run [OF a b c k d, of initial_plugin None] a b c show ?thesis
    by simp
qed

lemma select_line_after_mousedown_lemma:
  assumes "somethingSelected ed"
  shows "handleSelectLine False (mousedown p) (Some ed) =
     (\<lparr>selectLineCount = 1, lastSelectedLine = - 1\<rparr>,
      Some (setSelection ed \<lparr>line = - 1, ch = 0\<rparr> \<lparr>line = 0, ch = 0\<rparr>), True)"
  using assms by (simp add: handleSelectLine_def mousedown_def Let_def)

text \<open>
  X6: after a \<open>mousedown\<close>, an invocation of line-select at which the host reports a
  selection (one made by dragging, say) asks for the selection from line -1, column 0 to
  line 0, column 0, whichever line the cursor is on: the anchor line was reset to -1 and
  is set to the cursor's line only when nothing is selected.
\<close>

theorem select_line_after_mousedown:
  assumes "somethingSelected ed"
  shows "handleSelectLine False (mousedown p) (Some ed) =
     (\<lparr>selectLineCount = 1, lastSelectedLine = - 1\<rparr>,
      Some (setSelection ed \<lparr>line = - 1, ch = 0\<rparr> \<lparr>line = 0, ch = 0\<rparr>), True)"
  using assms by (rule select_line_after_mousedown_lemma)

theorem select_line_after_mousedown_witness:
  "somethingSelected threeLineSelected \<and>
   line (getCursor threeLineSelected) = 2 \<and>
   handleSelectLine False (mousedown initial_plugin) (Some threeLineSelected) =
     (\<lparr>selectLineCount = 1, lastSelectedLine = - 1\<rparr>,
      Some (setSelection threeLineSelected \<lparr>line = - 1, ch = 0\<rparr> \<lparr>line = 0, ch = 0\<rparr>), True)"
proof -
  have a: "somethingSelected threeLineSelected" by code_simp
  have b: "line (getCursor threeLineSelected) = 2" by code_simp
  from select_line_after_mousedown [OF a, of initial_plugin] a b show ?thesis by simp
qed

subsection \<open>Duplicate line down\<close>

lemma split_on_no_sep: "c \<notin> set p \<Longrightarrow> split_on c p = [p]"
  by (induction p) auto

lemma split_on_append_sep: "c \<notin> set p \<Longrightarrow> split_on c (p @ c # rest) = p # split_on c rest"
  by (induction p) auto

lemma split_on_join_with:
  assumes "list_all (\<lambda>l. c \<notin> set l) ls" "ls \<noteq> []"
  shows "split_on c (join_with [c] ls) = ls"
  using assms
proof (induction "[c]" ls rule: join_with.induct)
  case 1
  then show ?case by simp
next
  case (2 p)
  then show ?case by (simp add: split_on_no_sep)
next
  case (3 p q ps)
  then show ?case by (simp add: split_on_append_sep)
qed

lemma replaceRange_line_end_doc:
  assumes "0 \<le> e" "e < lineCount ed"
  shows "doc (replaceRange ed (LF # x) \<lparr>line = e, ch = int (length (getLine ed e))\<rparr>) =
     take (Suc (nat e)) (doc ed) @ split_on LF x @ drop (Suc (nat e)) (doc ed)"
proof -
  let ?ps = "split_on LF x"
  have n: "nat e < length (doc ed)" using assms by (simp add: lineCount_def)
  have g: "getLine ed e = doc ed ! nat e" using assms by (simp add: getLine_def)
  have ne: "?ps \<noteq> []" by (rule split_on_not_Nil)
  then have bl: "butlast ?ps @ [last ?ps] = ?ps" by simp
  have "doc (replaceRange ed (LF # x) \<lparr>line = e, ch = int (length (getLine ed e))\<rparr>) =
      take (nat e) (doc ed) @ (doc ed ! nat e # butlast ?ps @ [last ?ps]) @ drop (Suc (nat e)) (doc ed)"
    using ne by (simp add: replaceRange_def Let_def g)
  also have "\<dots> = (take (nat e) (doc ed) @ [doc ed ! nat e]) @ ?ps @ drop (Suc (nat e)) (doc ed)"
    using bl by simp
  also have "take (nat e) (doc ed) @ [doc ed ! nat e] = take (Suc (nat e)) (doc ed)"
    using n by (simp add: take_Suc_conv_app_nth)
  finally show ?thesis .
qed

lemma getLine_in_range: "0 \<le> n \<Longrightarrow> n < lineCount ed \<Longrightarrow> getLine ed n = doc ed ! nat n"
  by (simp add: getLine_def)

lemma getLine_after_insert:
  assumes "0 \<le> e" "e < lineCount ed"
  shows "getLine (replaceRange ed (LF # x) \<lparr>line = e, ch = int (length (getLine ed e))\<rparr>) e =
         getLine ed e"
proof -
  define ed' where "ed' = replaceRange ed (LF # x) \<lparr>line = e, ch = int (length (getLine ed e))\<rparr>"
  have n: "nat e < length (doc ed)" using assms by (simp add: lineCount_def)
  have d: "doc ed' = take (Suc (nat e)) (doc ed) @ split_on LF x @ drop (Suc (nat e)) (doc ed)"
    unfolding ed'_def by (rule replaceRange_line_end_doc [OF assms])
  have l: "e < lineCount ed'" using n assms by (simp add: d lineCount_def)
  have "doc ed' ! nat e = doc ed ! nat e"
    using n by (simp add: d nth_append)
  then have "getLine ed' e = getLine ed e"
    using getLine_in_range [OF assms] getLine_in_range [OF assms(1) l] by simp
  then show ?thesis unfolding ed'_def .
qed

lemma duplicateDown_each_snd:
  assumes "startLine = min (line (anchor s)) (line (head s))"
    and "endLine = max (line (anchor s)) (line (head s))"
    and "0 \<le> endLine" "endLine < lineCount ed"
  shows "snd (duplicateDown_each (ed, acc) s) = acc @
      [\<lparr>anchor = \<lparr>line = endLine + 1,
                  ch = (if line (anchor s) = startLine then ch (anchor s) else 0)\<rparr>,
        head = \<lparr>line = endLine + (endLine - startLine + 1),
                ch = (if line (head s) = endLine then ch (head s)
                      else int (length (doc ed ! nat endLine)))\<rparr>\<rparr>]"
proof -
  have "snd (duplicateDown_each (ed, acc) s) = acc @
      [\<lparr>anchor = \<lparr>line = endLine + 1,
                  ch = (if line (anchor s) = startLine then ch (anchor s) else 0)\<rparr>,
        head = \<lparr>line = endLine + (endLine - startLine + 1),
                ch = (if line (head s) = endLine then ch (head s)
                      else int (length (getLine
                        (replaceRange ed (LF # join_with [LF] (map (getLine ed) [startLine..endLine]))
                           \<lparr>line = endLine, ch = int (length (getLine ed endLine))\<rparr>) endLine)))\<rparr>\<rparr>]"
    by (simp only: duplicateDown_each_def Let_def fst_conv snd_conv append_Cons append_Nil
        flip: assms(1,2))
  then have "snd (duplicateDown_each (ed, acc) s) = acc @
      [\<lparr>anchor = \<lparr>line = endLine + 1,
                  ch = (if line (anchor s) = startLine then ch (anchor s) else 0)\<rparr>,
        head = \<lparr>line = endLine + (endLine - startLine + 1),
                ch = (if line (head s) = endLine then ch (head s)
                      else int (length (getLine ed endLine)))\<rparr>\<rparr>]"
    by (simp only: getLine_after_insert [OF assms(3,4)])
  then show ?thesis
    by (simp only: getLine_in_range [OF assms(3,4)])
qed

text \<open>
  C4, as stated, fails for the end column: for a selection made backwards over the lines
  \<open>ab\<close> and \<open>cd\<close> (anchor on line 1, head on line 0) the head is not on the end line,
  and the new selection ends at column 2, the length of the end line, not at column 0.
\<close>

theorem duplicate_down_end_column_counterexample:
  "listSelections backwardEditor = [range_of 1 1 0 1] \<and>
   line (head (primary backwardEditor)) \<noteq>
     max (line (anchor (primary backwardEditor))) (line (head (primary backwardEditor))) \<and>
   handleDuplicateLineDown False (Some backwardEditor) =
     (Some \<lparr>doc = [js ''ab'', js ''cd'', js ''ab'', js ''cd''], secondary = [],
             primary = range_of 2 0 3 2, focused = True\<rparr>, True) \<and>
   ch (head (range_of 2 0 3 2)) \<noteq> 0"
  by code_simp

text \<open>
  C4 (amended): for every selection whose end line is in the document as it stands when
  the selection is handled, with \<open>startLine\<close> and \<open>endLine\<close> the smaller and the larger
  of the anchor's and the head's line and \<open>lineCount = endLine - startLine + 1\<close>, the new
  selection of that entry runs from line \<open>endLine + 1\<close> to line \<open>endLine + lineCount\<close>;
  its start column is the anchor's column if the anchor is on \<open>startLine\<close> and 0
  otherwise; its end column is the head's column if the head is on \<open>endLine\<close> and
  otherwise the length of line \<open>endLine\<close>. With one selection in the editor this is the
  selection the handler sets.
\<close>

theorem duplicate_down_new_selection:
  assumes "0 \<le> max (line (anchor s)) (line (head s))"
    and "max (line (anchor s)) (line (head s)) < lineCount ed"
  shows "(let startLine = min (line (anchor s)) (line (head s));
              endLine = max (line (anchor s)) (line (head s));
              lineCount = endLine - startLine + 1;
              new = \<lparr>anchor = \<lparr>line = endLine + 1,
                               ch = (if line (anchor s) = startLine then ch (anchor s) else 0)\<rparr>,
                     head = \<lparr>line = endLine + lineCount,
                             ch = (if line (head s) = endLine then ch (head s)
                                   else int (length (doc ed ! nat endLine)))\<rparr>\<rparr>
          in snd (duplicateDown_each (ed, acc) s) = acc @ [new] \<and>
             (secondary ed = [] \<and> primary ed = s \<longrightarrow>
              (\<exists>ed'. handleDuplicateLineDown False (Some ed) = (Some ed', True) \<and>
                     listSelections ed' = [new])))"
proof -
  define startLine where "startLine = min (line (anchor s)) (line (head s))"
  define endLine where "endLine = max (line (anchor s)) (line (head s))"
  define new where "new =
      \<lparr>anchor = \<lparr>line = endLine + 1,
                  ch = (if line (anchor s) = startLine then ch (anchor s) else 0)\<rparr>,
        head = \<lparr>line = endLine + (endLine - startLine + 1),
                ch = (if line (head s) = endLine then ch (head s)
                      else int (length (doc ed ! nat endLine)))\<rparr>\<rparr>"
  have r: "0 \<le> endLine" "endLine < lineCount ed" using assms by (simp_all add: endLine_def)
  have s: "snd (duplicateDown_each (ed, acc) s) = acc @ [new]" for acc
    unfolding new_def by (rule duplicateDown_each_snd [OF startLine_def endLine_def r])
  have h: "\<exists>ed'. handleDuplicateLineDown False (Some ed) = (Some ed', True) \<and>
      listSelections ed' = [new]" if t: "secondary ed = [] \<and> primary ed = s"
  proof -
    from t have ls: "listSelections ed = [s]" by (simp add: listSelections_def)
    have "handleDuplicateLineDown False (Some ed) =
        (Some (setSelections (fst (duplicateDown_each (ed, []) s))
                 (snd (duplicateDown_each (ed, []) s))), True)"
      by (simp add: handleDuplicateLineDown_def ls Let_def)
    moreover have "listSelections (setSelections (fst (duplicateDown_each (ed, []) s))
                 (snd (duplicateDown_each (ed, []) s))) = [new]"
      unfolding s by (simp add: listSelections_def setSelections_def)
    ultimately show ?thesis by simp
  qed
  have "snd (duplicateDown_each (ed, acc) s) = acc @ [new] \<and>
             (secondary ed = [] \<and> primary ed = s \<longrightarrow>
              (\<exists>ed'. handleDuplicateLineDown False (Some ed) = (Some ed', True) \<and>
                     listSelections ed' = [new]))"
    using s h by simp
  then show ?thesis
    unfolding Let_def new_def startLine_def endLine_def .
qed

theorem duplicate_down_new_selection_witness:
  "0 \<le> max (line (anchor (primary backwardEditor))) (line (head (primary backwardEditor))) \<and>
   max (line (anchor (primary backwardEditor))) (line (head (primary backwardEditor)))
     < lineCount backwardEditor \<and>
   snd (duplicateDown_each (backwardEditor, []) (primary backwardEditor)) = [range_of 2 0 3 2] \<and>
   (\<exists>ed'. handleDuplicateLineDown False (Some backwardEditor) = (Some ed', True) \<and>
      listSelections ed' = [range_of 2 0 3 2])"
proof -
  have a: "0 \<le> max (line (anchor (primary backwardEditor))) (line (head (primary backwardEditor)))"
    by code_simp
  have b: "max (line (anchor (primary backwardEditor))) (line (head (primary backwardEditor)))
     < lineCount backwardEditor"
    by code_simp
  have c: "secondary backwardEditor = [] \<and> primary backwardEditor = primary backwardEditor"
    by (simp add: backwardEditor_def)
  have n: "\<lparr>anchor = \<lparr>line = max (line (anchor (primary backwardEditor))) (line (head (primary backwardEditor))) + 1,
            ch = (if line (anchor (primary backwardEditor)) = min (line (anchor (primary backwardEditor))) (line (head (primary backwardEditor))) then ch (anchor (primary backwardEditor)) else 0)\<rparr>,
       head = \<lparr>line = max (line (anchor (primary backwardEditor))) (line (head (primary backwardEditor))) +
                (max (line (anchor (primary backwardEditor))) (line (head (primary backwardEditor))) -
                 min (line (anchor (primary backwardEditor))) (line (head (primary backwardEditor))) + 1),
            ch = (if line (head (primary backwardEditor)) = max (line (anchor (primary backwardEditor))) (line (head (primary backwardEditor))) then ch (head (primary backwardEditor))
                  else int (length (doc backwardEditor ! nat (max (line (anchor (primary backwardEditor))) (line (head (primary backwardEditor)))))))\<rparr>\<rparr>
     = range_of 2 0 3 2"
    by code_simp
  from duplicate_down_new_selection [OF a b, of "[]"] a b c show ?thesis
    unfolding Let_def n by simp
qed

lemma join_with_append:
  "xs \<noteq> [] \<Longrightarrow> ys \<noteq> [] \<Longrightarrow> join_with sep (xs @ ys) = join_with sep xs @ sep @ join_with sep ys"
proof (induction sep xs rule: join_with.induct)
  case (1 sep)
  then show ?case by simp
next
  case (2 sep p)
  then show ?case by (cases ys) simp_all
next
  case (3 sep p q ps)
  then show ?case by simp
qed

lemma length_join_with:
  "xs \<noteq> [] \<Longrightarrow> Suc (length (join_with [c] xs)) = sum_list (map (\<lambda>l. Suc (length l)) xs)"
  by (induction "[c]" xs rule: join_with.induct) simp_all

lemma duplicated_lines:
  assumes "0 \<le> a" "b < lineCount ed"
  shows "map (getLine ed) [a..b] = map (\<lambda>i. doc ed ! nat i) [a..b]"
  using assms by (intro map_cong) (auto simp: getLine_def)

lemma duplicated_lines_no_LF:
  assumes "list_all (\<lambda>l. LF \<notin> set l) (doc ed)" "0 \<le> a" "b < lineCount ed"
  shows "list_all (\<lambda>l. LF \<notin> set l) (map (\<lambda>i. doc ed ! nat i) [a..b])"
proof -
  have "doc ed ! nat i \<in> set (doc ed)" if "i \<in> set [a..b]" for i
    using that assms(2,3) by (auto simp: lineCount_def intro!: nth_mem)
  then show ?thesis using assms(1) by (auto simp: list_all_iff)
qed

lemma duplicateDown_each_doc:
  assumes "list_all (\<lambda>l. LF \<notin> set l) (doc ed)"
    and "a = min (line (anchor s)) (line (head s))"
    and "b = max (line (anchor s)) (line (head s))"
    and "0 \<le> a" "b < lineCount ed"
  shows "doc (fst (duplicateDown_each (ed, acc) s)) =
     take (Suc (nat b)) (doc ed) @ map (\<lambda>i. doc ed ! nat i) [a..b] @ drop (Suc (nat b)) (doc ed)"
proof -
  have ab: "a \<le> b" using assms(2,3) by simp
  then have b0: "0 \<le> b" using assms(4) by simp
  have ne: "map (\<lambda>i. doc ed ! nat i) [a..b] \<noteq> []" using ab by simp
  have "doc (fst (duplicateDown_each (ed, acc) s)) =
      doc (replaceRange ed (LF # join_with [LF] (map (getLine ed) [a..b]))
             \<lparr>line = b, ch = int (length (getLine ed b))\<rparr>)"
    by (simp only: duplicateDown_each_def Let_def fst_conv snd_conv append_Cons append_Nil
        flip: assms(2,3))
  also have "\<dots> = take (Suc (nat b)) (doc ed) @
      split_on LF (join_with [LF] (map (getLine ed) [a..b])) @ drop (Suc (nat b)) (doc ed)"
    by (rule replaceRange_line_end_doc [OF b0 assms(5)])
  also have "split_on LF (join_with [LF] (map (getLine ed) [a..b])) =
      map (\<lambda>i. doc ed ! nat i) [a..b]"
    unfolding duplicated_lines [OF assms(4,5)]
    by (rule split_on_join_with [OF duplicated_lines_no_LF [OF assms(1,4,5)] ne])
  finally show ?thesis .
qed

text \<open>
  The edit made for one selection over the lines \<open>a\<close> to \<open>b\<close>: the lines are
  repeated after line \<open>b\<close>, as lines and as text, and deleting the repeated lines
  gives the document back.
\<close>

lemma duplicateDown_each_round_trip:
  assumes "list_all (\<lambda>l. LF \<notin> set l) (doc ed)"
    and "a = min (line (anchor s)) (line (head s))"
    and "b = max (line (anchor s)) (line (head s))"
    and "0 \<le> a" "b < lineCount ed"
  shows "(let after = doc (fst (duplicateDown_each (ed, acc) s));
              copy = map (\<lambda>i. doc ed ! nat i) [a..b];
              p = posToOffset (doc ed) \<lparr>line = b, ch = int (length (doc ed ! nat b))\<rparr>
          in after = take (nat b + 1) (doc ed) @ copy @ drop (nat b + 1) (doc ed) \<and>
             join_with [LF] after =
               take p (getValue ed) @ [LF] @ join_with [LF] copy @ drop p (getValue ed) \<and>
             deleteLines after (nat b + 1) (nat (b - a + 1)) = doc ed \<and>
             join_with [LF] (deleteLines after (nat b + 1) (nat (b - a + 1))) = getValue ed \<and>
             (secondary ed = [] \<and> primary ed = s \<longrightarrow>
                (\<exists>ed'. handleDuplicateLineDown False (Some ed) = (Some ed', True) \<and>
                       doc ed' = after \<and> getValue ed' = join_with [LF] after)))"
proof -
  define D where "D = map (\<lambda>i. doc ed ! nat i) [a..b]"
  define A where "A = take (Suc (nat b)) (doc ed)"
  define R where "R = drop (Suc (nat b)) (doc ed)"
  define after where "after = doc (fst (duplicateDown_each (ed, acc) s))"
  define p where "p = posToOffset (doc ed) \<lparr>line = b, ch = int (length (doc ed ! nat b))\<rparr>"
  have ab: "a \<le> b" using assms(2,3) by simp
  have nb: "nat b < length (doc ed)" using assms(5) ab assms(4) by (simp add: lineCount_def)
  have d: "doc (fst (duplicateDown_each (ed, acc') s)) = A @ D @ R" for acc'
    unfolding A_def D_def R_def by (rule duplicateDown_each_doc [OF assms])
  have da: "after = A @ D @ R" unfolding after_def by (rule d)
  have AR: "A @ R = doc ed" by (simp add: A_def R_def)
  have lA: "length A = Suc (nat b)" using nb by (simp add: A_def)
  have lD: "length D = nat (b - a + 1)" by (simp add: D_def)
  have neA: "A \<noteq> []" using lA by auto
  have neD: "D \<noteq> []" using lD ab by auto
  have del: "deleteLines after (nat b + 1) (nat (b - a + 1)) = doc ed"
    using lA lD AR by (simp add: deleteLines_def da)
  have A': "A = take (nat b) (doc ed) @ [doc ed ! nat b]"
    using nb by (simp add: A_def take_Suc_conv_app_nth)
  have "Suc (length (join_with [LF] A)) = sum_list (map (\<lambda>l. Suc (length l)) A)"
    by (rule length_join_with [OF neA])
  then have p: "p = length (join_with [LF] A)"
    by (simp add: p_def posToOffset_def A')
  have v: "getValue ed = join_with [LF] A @ (if R = [] then [] else [LF] @ join_with [LF] R)"
    using neA by (simp add: getValue_def AR [symmetric] join_with_append del: append_assoc)
  have v': "join_with [LF] after = join_with [LF] A @ [LF] @ join_with [LF] D @
      (if R = [] then [] else [LF] @ join_with [LF] R)"
    using neA neD by (simp add: da join_with_append)
  have flat: "join_with [LF] after =
       take p (getValue ed) @ [LF] @ join_with [LF] D @ drop p (getValue ed)"
    unfolding p v v' by simp
  have restored: "join_with [LF] (deleteLines after (nat b + 1) (nat (b - a + 1))) = getValue ed"
    using del by (simp add: getValue_def)
  have shape: "after = take (nat b + 1) (doc ed) @ D @ drop (nat b + 1) (doc ed)"
    using da by (simp add: A_def R_def)
  have h: "\<exists>ed'. handleDuplicateLineDown False (Some ed) = (Some ed', True) \<and>
      doc ed' = after \<and> getValue ed' = join_with [LF] after"
    if t: "secondary ed = [] \<and> primary ed = s"
  proof -
    define st where "st = duplicateDown_each (ed, []) s"
    from t have ls: "listSelections ed = [s]" by (simp add: listSelections_def)
    have "handleDuplicateLineDown False (Some ed) =
        (Some (setSelections (fst st) (snd st)), True)"
      by (simp add: handleDuplicateLineDown_def ls Let_def st_def)
    moreover have "doc (setSelections (fst st) (snd st)) = after"
      using d [of "[]"] da by (simp add: setSelections_def st_def)
    ultimately show ?thesis by (simp add: getValue_def)
  qed
  have "after = take (nat b + 1) (doc ed) @ D @ drop (nat b + 1) (doc ed) \<and>
      join_with [LF] after =
               take p (getValue ed) @ [LF] @ join_with [LF] D @ drop p (getValue ed) \<and>
      deleteLines after (nat b + 1) (nat (b - a + 1)) = doc ed \<and>
      join_with [LF] (deleteLines after (nat b + 1) (nat (b - a + 1))) = getValue ed \<and>
      (secondary ed = [] \<and> primary ed = s \<longrightarrow>
                (\<exists>ed'. handleDuplicateLineDown False (Some ed) = (Some ed', True) \<and>
                       doc ed' = after \<and> getValue ed' = join_with [LF] after))"
    using shape flat del restored h by blast
  then show ?thesis
    unfolding Let_def D_def after_def p_def .
qed

subsection \<open>The try-guarded duplicate line down\<close>

text \<open>
  C9, as stated, fails for the document: when \<open>setCursor\<close> raises, the exception is
  caught and logged, but \<open>replaceRange\<close> has already inserted the copy of the line.
\<close>

theorem duplicate_guarded_setCursor_counterexample:
  "handleDuplicateLineDown_guarded only_SetCursor_raises False (Some oneLineEditor) =
     Inr (Some \<lparr>doc = [js ''ab'', js ''ab''], secondary = [], primary = cursor_at 0 1,
                focused = True\<rparr>, Some SetCursor, True) \<and>
   doc oneLineEditor = [js ''ab''] \<and>
   [js ''ab'', js ''ab''] \<noteq> doc oneLineEditor"
  by code_simp

text \<open>
  C9 (amended): whichever host calls raise, the try-guarded handler returns \<open>true\<close> and
  no exception reaches its caller. If \<open>getActiveEditor\<close>, \<open>getCursor\<close>, \<open>getLine\<close> or
  \<open>replaceRange\<close> raises, the exception of the first call that raises is caught and
  logged and the editor is as it was. If only \<open>setCursor\<close> raises, its exception is
  caught and logged and the editor holds the inserted copy.
\<close>

theorem duplicate_guarded_catches:
  "(\<exists>view' logged.
      handleDuplicateLineDown_guarded raises checking view = Inr (view', logged, True)) \<and>
   (raises GetActiveEditor \<or> raises GetCursor \<or> raises GetLine \<or> raises ReplaceRange \<longrightarrow>
      (\<exists>c. raises c \<and>
         handleDuplicateLineDown_guarded raises False (Some ed) = Inr (Some ed, Some c, True))) \<and>
   (\<not> raises GetActiveEditor \<and> \<not> raises GetCursor \<and> \<not> raises GetLine \<and>
    \<not> raises ReplaceRange \<and> raises SetCursor \<longrightarrow>
      handleDuplicateLineDown_guarded raises False (Some ed) =
        Inr (Some (replaceRange ed ([LF] @ getLine ed (line (getCursor ed)))
                     \<lparr>line = line (getCursor ed),
                      ch = int (length (getLine ed (line (getCursor ed))))\<rparr>),
             Some SetCursor, True))"
proof (intro conjI impI)
  show "\<exists>view' logged.
      handleDuplicateLineDown_guarded raises checking view = Inr (view', logged, True)"
    by (cases "duplicateLineDown_try raises view"; cases "snd (duplicateLineDown_try raises view)")
      (auto simp: handleDuplicateLineDown_guarded_def)
next
  assume a: "raises GetActiveEditor \<or> raises GetCursor \<or> raises GetLine \<or> raises ReplaceRange"
  then consider (1) "raises GetActiveEditor"
    | (2) "\<not> raises GetActiveEditor" "raises GetCursor"
    | (3) "\<not> raises GetActiveEditor" "\<not> raises GetCursor" "raises GetLine"
    | (4) "\<not> raises GetActiveEditor" "\<not> raises GetCursor" "\<not> raises GetLine" "raises ReplaceRange"
    by blast
  then show "\<exists>c. raises c \<and>
         handleDuplicateLineDown_guarded raises False (Some ed) = Inr (Some ed, Some c, True)"
  proof cases
    case 1
    then show ?thesis
      by (intro exI [of _ GetActiveEditor])
        (simp add: handleDuplicateLineDown_guarded_def duplicateLineDown_try_def)
  next
    case 2
    then show ?thesis
      by (intro exI [of _ GetCursor])
        (simp add: handleDuplicateLineDown_guarded_def duplicateLineDown_try_def)
  next
    case 3
    then show ?thesis
      by (intro exI [of _ GetLine])
        (simp add: handleDuplicateLineDown_guarded_def duplicateLineDown_try_def Let_def)
  next
    case 4
    then show ?thesis
      by (intro exI [of _ ReplaceRange])
        (simp add: handleDuplicateLineDown_guarded_def duplicateLineDown_try_def Let_def)
  qed
next
  assume "\<not> raises GetActiveEditor \<and> \<not> raises GetCursor \<and> \<not> raises GetLine \<and>
    \<not> raises ReplaceRange \<and> raises SetCursor"
  then show "handleDuplicateLineDown_guarded raises False (Some ed) =
        Inr (Some (replaceRange ed ([LF] @ getLine ed (line (getCursor ed)))
                     \<lparr>line = line (getCursor ed),
                      ch = int (length (getLine ed (line (getCursor ed))))\<rparr>),
             Some SetCursor, True)"
    by (simp add: handleDuplicateLineDown_guarded_def duplicateLineDown_try_def Let_def)
qed

theorem duplicate_guarded_catches_witness:
  "only_ReplaceRange_raises ReplaceRange \<and>
   (\<exists>view' logged.
      handleDuplicateLineDown_guarded only_ReplaceRange_raises False (Some oneLineEditor) =
        Inr (view', logged, True)) \<and>
   (\<exists>c. only_ReplaceRange_raises c \<and>
      handleDuplicateLineDown_guarded only_ReplaceRange_raises False (Some oneLineEditor) =
        Inr (Some oneLineEditor, Some c, True))"
proof -
  have r: "only_ReplaceRange_raises ReplaceRange" by simp
  from duplicate_guarded_catches [of only_ReplaceRange_raises False "Some oneLineEditor" oneLineEditor] r
  show ?thesis by blast
qed

lemma duplicate_guarded_copies_line_lemma:
  assumes "list_all (\<lambda>c. \<not> raises c) [GetActiveEditor, GetCursor, GetLine, ReplaceRange, SetCursor]"
    and "getCursor ed = \<lparr>line = int l, ch = c\<rparr>" "l < length (doc ed)"
    and "LF \<notin> set (doc ed ! l)"
  shows "\<exists>ed'. handleDuplicateLineDown_guarded raises False (Some ed) = Inr (Some ed', None, True) \<and>
     doc ed' = take (Suc l) (doc ed) @ [doc ed ! l] @ drop (Suc l) (doc ed) \<and>
     deleteLines (doc ed') (Suc l) 1 = doc ed \<and>
     listSelections ed' = [cursor_at (int l + 1) c]"
proof -
  have r: "0 \<le> int l" "int l < lineCount ed" using assms(3) by (simp_all add: lineCount_def)
  have g: "getLine ed (int l) = doc ed ! l" using getLine_in_range [OF r] by simp
  define ed1 where "ed1 = replaceRange ed (LF # doc ed ! l) \<lparr>line = int l, ch = int (length (getLine ed (int l)))\<rparr>"
  have d: "doc ed1 = take (Suc l) (doc ed) @ [doc ed ! l] @ drop (Suc l) (doc ed)"
    unfolding ed1_def using replaceRange_line_end_doc [OF r, of "doc ed ! l"]
    by (simp add: split_on_no_sep [OF assms(4)])
  have h: "handleDuplicateLineDown_guarded raises False (Some ed) =
      Inr (Some (setCursor ed1 \<lparr>line = int l + 1, ch = c\<rparr>), None, True)"
    using assms(1,2)
    by (simp add: handleDuplicateLineDown_guarded_def duplicateLineDown_try_def Let_def g ed1_def)
  have d': "doc (setCursor ed1 \<lparr>line = int l + 1, ch = c\<rparr>) =
      take (Suc l) (doc ed) @ [doc ed ! l] @ drop (Suc l) (doc ed)"
    using d by (simp add: setCursor_def setSelection_def setSelections_def)
  have s: "listSelections (setCursor ed1 \<lparr>line = int l + 1, ch = c\<rparr>) = [cursor_at (int l + 1) c]"
    by (simp add: setCursor_def setSelection_def setSelections_def listSelections_def
        cursor_at_def)
  have del: "deleteLines (doc (setCursor ed1 \<lparr>line = int l + 1, ch = c\<rparr>)) (Suc l) 1 = doc ed"
    using assms(3) by (simp add: d' deleteLines_def min_def)
  from h d' del s show ?thesis by blast
qed

subsection \<open>Duplicate line down in both variants\<close>

text \<open>
  C7, as stated, fails for the try-guarded handler of \<open>src/main.ts\<close>, which copies the
  cursor's line whatever the selection spans. With the lines \<open>ab\<close> and \<open>cd\<close>
  selected from line 1 back to line 0, so \<open>a = 0\<close> and \<open>b = 1\<close>, it leaves the
  lines \<open>ab\<close>, \<open>ab\<close>, \<open>cd\<close>: a copy of line 0 after line 0, not the lines 0 to 1
  after line 1. Deleting the two lines from index 2 on leaves \<open>ab\<close>, \<open>ab\<close>, which
  is not the document.
\<close>

theorem duplicate_guarded_selection_counterexample:
  "min (line (anchor (primary backwardEditor))) (line (head (primary backwardEditor))) = 0 \<and>
   max (line (anchor (primary backwardEditor))) (line (head (primary backwardEditor))) = 1 \<and>
   handleDuplicateLineDown_guarded nothing_raises False (Some backwardEditor) =
     Inr (Some \<lparr>doc = [js ''ab'', js ''ab'', js ''cd''], secondary = [],
                primary = \<lparr>anchor = \<lparr>line = 1, ch = 1\<rparr>, head = \<lparr>line = 1, ch = 1\<rparr>\<rparr>,
                focused = True\<rparr>, None, True) \<and>
   [js ''ab'', js ''ab'', js ''cd''] \<noteq> [js ''ab'', js ''cd'', js ''ab'', js ''cd''] \<and>
   deleteLines [js ''ab'', js ''ab'', js ''cd''] 2 2 = [js ''ab'', js ''ab''] \<and>
   [js ''ab'', js ''ab''] \<noteq> doc backwardEditor"
  by code_simp

text \<open>
  C7 (amended), for each of the two handlers. The handler of \<open>src/unnamed/part_000\<close>:
  for every document (whose lines hold no line break) and every selection over the
  lines \<open>a\<close> to \<open>b\<close> of it, the edit made for that selection gives the document with
  the lines \<open>a\<close> to \<open>b\<close> repeated after line \<open>b\<close> and nothing else changed: as text, a
  line break and the join of the lines \<open>a\<close> to \<open>b\<close> are inserted at the end of line
  \<open>b\<close>. Deleting the \<open>b - a + 1\<close> lines from index \<open>b + 1\<close> on gives the document,
  and so its text, back. With one selection in the editor this is the document the
  handler leaves. The try-guarded handler of \<open>src/main.ts\<close>, when no host call raises:
  with the cursor on line \<open>l\<close>, it gives the document with line \<open>l\<close> alone repeated
  after line \<open>l\<close> and nothing else changed: as text, a line break and line \<open>l\<close> are
  inserted at the end of line \<open>l\<close>. Deleting the one line at index \<open>l + 1\<close> gives the
  document back, and the cursor is on the copy at the column it had.
\<close>

theorem duplicate_down_round_trip:
  "(list_all (\<lambda>l. LF \<notin> set l) (doc ed) \<and>
    a = min (line (anchor s)) (line (head s)) \<and>
    b = max (line (anchor s)) (line (head s)) \<and>
    0 \<le> a \<and> b < lineCount ed \<longrightarrow>
      (let after = doc (fst (duplicateDown_each (ed, acc) s));
           copy = map (\<lambda>i. doc ed ! nat i) [a..b];
           p = posToOffset (doc ed) \<lparr>line = b, ch = int (length (doc ed ! nat b))\<rparr>
       in after = take (nat b + 1) (doc ed) @ copy @ drop (nat b + 1) (doc ed) \<and>
          join_with [LF] after =
            take p (getValue ed) @ [LF] @ join_with [LF] copy @ drop p (getValue ed) \<and>
          deleteLines after (nat b + 1) (nat (b - a + 1)) = doc ed \<and>
          join_with [LF] (deleteLines after (nat b + 1) (nat (b - a + 1))) = getValue ed \<and>
          (secondary ed = [] \<and> primary ed = s \<longrightarrow>
             (\<exists>ed'. handleDuplicateLineDown False (Some ed) = (Some ed', True) \<and>
                    doc ed' = after \<and> getValue ed' = join_with [LF] after)))) \<and>
   (list_all (\<lambda>l. LF \<notin> set l) (doc ed) \<and>
    list_all (\<lambda>c. \<not> raises c) [GetActiveEditor, GetCursor, GetLine, ReplaceRange, SetCursor] \<and>
    getCursor ed = \<lparr>line = int l, ch = c\<rparr> \<and> l < length (doc ed) \<longrightarrow>
      (let p = posToOffset (doc ed) \<lparr>line = int l, ch = int (length (doc ed ! l))\<rparr>
       in \<exists>ed'. handleDuplicateLineDown_guarded raises False (Some ed) =
                  Inr (Some ed', None, True) \<and>
            doc ed' = take (l + 1) (doc ed) @ [doc ed ! l] @ drop (l + 1) (doc ed) \<and>
            getValue ed' = take p (getValue ed) @ [LF] @ doc ed ! l @ drop p (getValue ed) \<and>
            deleteLines (doc ed') (l + 1) 1 = doc ed \<and>
            listSelections ed' =
              [\<lparr>anchor = \<lparr>line = int l + 1, ch = c\<rparr>, head = \<lparr>line = int l + 1, ch = c\<rparr>\<rparr>]))"
proof (intro conjI impI)
  assume h: "list_all (\<lambda>l. LF \<notin> set l) (doc ed) \<and>
    a = min (line (anchor s)) (line (head s)) \<and>
    b = max (line (anchor s)) (line (head s)) \<and>
    0 \<le> a \<and> b < lineCount ed"
  then have h1: "list_all (\<lambda>l. LF \<notin> set l) (doc ed)"
    and h2: "a = min (line (anchor s)) (line (head s))"
    and h3: "b = max (line (anchor s)) (line (head s))"
    and h4: "0 \<le> a" and h5: "b < lineCount ed"
    by blast+
  show "let after = doc (fst (duplicateDown_each (ed, acc) s));
           copy = map (\<lambda>i. doc ed ! nat i) [a..b];
           p = posToOffset (doc ed) \<lparr>line = b, ch = int (length (doc ed ! nat b))\<rparr>
       in after = take (nat b + 1) (doc ed) @ copy @ drop (nat b + 1) (doc ed) \<and>
          join_with [LF] after =
            take p (getValue ed) @ [LF] @ join_with [LF] copy @ drop p (getValue ed) \<and>
          deleteLines after (nat b + 1) (nat (b - a + 1)) = doc ed \<and>
          join_with [LF] (deleteLines after (nat b + 1) (nat (b - a + 1))) = getValue ed \<and>
          (secondary ed = [] \<and> primary ed = s \<longrightarrow>
             (\<exists>ed'. handleDuplicateLineDown False (Some ed) = (Some ed', True) \<and>
                    doc ed' = after \<and> getValue ed' = join_with [LF] after))"
    by (rule duplicateDown_each_round_trip [OF h1 h2 h3 h4 h5])
next
  assume h: "list_all (\<lambda>l. LF \<notin> set l) (doc ed) \<and>
    list_all (\<lambda>c. \<not> raises c) [GetActiveEditor, GetCursor, GetLine, ReplaceRange, SetCursor] \<and>
    getCursor ed = \<lparr>line = int l, ch = c\<rparr> \<and> l < length (doc ed)"
  then have h1: "list_all (\<lambda>l. LF \<notin> set l) (doc ed)"
    and h2: "list_all (\<lambda>c. \<not> raises c) [GetActiveEditor, GetCursor, GetLine, ReplaceRange, SetCursor]"
    and h3: "getCursor ed = \<lparr>line = int l, ch = c\<rparr>" and h4: "l < length (doc ed)"
    by blast+
  define p where "p = posToOffset (doc ed) \<lparr>line = int l, ch = int (length (doc ed ! l))\<rparr>"
  define s where "s = \<lparr>anchor = \<lparr>line = int l, ch = c\<rparr>, head = \<lparr>line = int l, ch = c\<rparr>\<rparr>"
  have nl: "LF \<notin> set (doc ed ! l)"
    using h1 h4 by (simp add: list_all_length)
  from duplicate_guarded_copies_line_lemma [OF h2 h3 h4 nl]
  obtain ed' where g: "handleDuplicateLineDown_guarded raises False (Some ed) =
        Inr (Some ed', None, True)"
    and d: "doc ed' = take (Suc l) (doc ed) @ [doc ed ! l] @ drop (Suc l) (doc ed)"
    and del: "deleteLines (doc ed') (Suc l) 1 = doc ed"
    and sel: "listSelections ed' = [cursor_at (int l + 1) c]"
    by blast
  have a: "int l = min (line (anchor s)) (line (head s))" by (simp add: s_def)
  have b: "int l = max (line (anchor s)) (line (head s))" by (simp add: s_def)
  have lc: "int l < lineCount ed" using h4 by (simp add: lineCount_def)
  have z: "0 \<le> int l" by simp
  from duplicateDown_each_round_trip [OF h1 a b z lc, of "[]"]
  have "join_with [LF] (take (Suc l) (doc ed) @ [doc ed ! l] @ drop (Suc l) (doc ed)) =
      take p (getValue ed) @ [LF] @ doc ed ! l @ drop p (getValue ed)"
    by (auto simp add: Let_def p_def)
  then have v: "getValue ed' = take p (getValue ed) @ [LF] @ doc ed ! l @ drop p (getValue ed)"
    by (simp add: getValue_def d)
  from g d v del sel
  have "\<exists>ed'. handleDuplicateLineDown_guarded raises False (Some ed) =
                  Inr (Some ed', None, True) \<and>
            doc ed' = take (l + 1) (doc ed) @ [doc ed ! l] @ drop (l + 1) (doc ed) \<and>
            getValue ed' = take p (getValue ed) @ [LF] @ doc ed ! l @ drop p (getValue ed) \<and>
            deleteLines (doc ed') (l + 1) 1 = doc ed \<and>
            listSelections ed' =
              [\<lparr>anchor = \<lparr>line = int l + 1, ch = c\<rparr>, head = \<lparr>line = int l + 1, ch = c\<rparr>\<rparr>]"
    by (auto simp add: cursor_at_def)
  then show "let p = posToOffset (doc ed) \<lparr>line = int l, ch = int (length (doc ed ! l))\<rparr>
       in \<exists>ed'. handleDuplicateLineDown_guarded raises False (Some ed) =
                  Inr (Some ed', None, True) \<and>
            doc ed' = take (l + 1) (doc ed) @ [doc ed ! l] @ drop (l + 1) (doc ed) \<and>
            getValue ed' = take p (getValue ed) @ [LF] @ doc ed ! l @ drop p (getValue ed) \<and>
            deleteLines (doc ed') (l + 1) 1 = doc ed \<and>
            listSelections ed' =
              [\<lparr>anchor = \<lparr>line = int l + 1, ch = c\<rparr>, head = \<lparr>line = int l + 1, ch = c\<rparr>\<rparr>]"
    unfolding Let_def p_def .
qed


theorem duplicate_down_round_trip_witness:
  "list_all (\<lambda>l. LF \<notin> set l) (doc backwardEditor) \<and>
   secondary backwardEditor = [] \<and>
   min (line (anchor (primary backwardEditor))) (line (head (primary backwardEditor))) = 0 \<and>
   max (line (anchor (primary backwardEditor))) (line (head (primary backwardEditor))) = 1 \<and>
   doc (fst (duplicateDown_each (backwardEditor, []) (primary backwardEditor))) =
     [js ''ab'', js ''cd'', js ''ab'', js ''cd''] \<and>
   deleteLines (doc (fst (duplicateDown_each (backwardEditor, []) (primary backwardEditor)))) 2 2 =
     doc backwardEditor \<and>
   (\<exists>ed'. handleDuplicateLineDown False (Some backwardEditor) = (Some ed', True) \<and>
      doc ed' = [js ''ab'', js ''cd'', js ''ab'', js ''cd''] \<and>
      getValue ed' = js ''ab'' @ [LF] @ js ''cd'' @ [LF] @ js ''ab'' @ [LF] @ js ''cd'') \<and>
   list_all (\<lambda>c. \<not> nothing_raises c)
     [GetActiveEditor, GetCursor, GetLine, ReplaceRange, SetCursor] \<and>
   getCursor backwardEditor = \<lparr>line = 0, ch = 1\<rparr> \<and>
   (\<exists>ed'. handleDuplicateLineDown_guarded nothing_raises False (Some backwardEditor) =
            Inr (Some ed', None, True) \<and>
      doc ed' = [js ''ab'', js ''ab'', js ''cd''] \<and>
      getValue ed' = js ''ab'' @ [LF] @ js ''ab'' @ [LF] @ js ''cd'' \<and>
      deleteLines (doc ed') 1 1 = doc backwardEditor \<and>
      listSelections ed' = [\<lparr>anchor = \<lparr>line = 1, ch = 1\<rparr>, head = \<lparr>line = 1, ch = 1\<rparr>\<rparr>])"
proof -
  have h1: "list_all (\<lambda>l. LF \<notin> set l) (doc backwardEditor)" by code_simp
  have h2: "secondary backwardEditor = [] \<and> primary backwardEditor = primary backwardEditor"
    by code_simp
  have h3: "0 = min (line (anchor (primary backwardEditor))) (line (head (primary backwardEditor)))"
    by code_simp
  have h4: "1 = max (line (anchor (primary backwardEditor))) (line (head (primary backwardEditor)))"
    by code_simp
  have h5: "(0::int) \<le> 0" by simp
  have h6: "1 < lineCount backwardEditor" by code_simp
  have g1: "list_all (\<lambda>c. \<not> nothing_raises c)
     [GetActiveEditor, GetCursor, GetLine, ReplaceRange, SetCursor]" by simp
  have g2: "getCursor backwardEditor = \<lparr>line = int 0, ch = 1\<rparr>" by code_simp
  have g3: "0 < length (doc backwardEditor)" by code_simp
  note both = duplicate_down_round_trip [where ed = backwardEditor and a = 0 and b = 1
      and s = "primary backwardEditor" and acc = "[]" and raises = nothing_raises
      and l = 0 and c = 1]
  have e: "take 2 (doc backwardEditor) @
      map (\<lambda>i. doc backwardEditor ! nat i) [0..1] @ drop 2 (doc backwardEditor) =
      [js ''ab'', js ''cd'', js ''ab'', js ''cd'']"
    by code_simp
  have n: "nat 1 + 1 = (2::nat)" "nat (1 - 0 + 1) = (2::nat)" by simp_all
  from both h1 h3 h4 h5 h6
  have "let after = doc (fst (duplicateDown_each (backwardEditor, []) (primary backwardEditor)));
           copy = map (\<lambda>i. doc backwardEditor ! nat i) [0..1];
           p = posToOffset (doc backwardEditor)
                 \<lparr>line = 1, ch = int (length (doc backwardEditor ! nat 1))\<rparr>
       in after = take (nat 1 + 1) (doc backwardEditor) @ copy @
                    drop (nat 1 + 1) (doc backwardEditor) \<and>
          join_with [LF] after =
            take p (getValue backwardEditor) @ [LF] @ join_with [LF] copy @
              drop p (getValue backwardEditor) \<and>
          deleteLines after (nat 1 + 1) (nat (1 - 0 + 1)) = doc backwardEditor \<and>
          join_with [LF] (deleteLines after (nat 1 + 1) (nat (1 - 0 + 1))) =
            getValue backwardEditor \<and>
          (secondary backwardEditor = [] \<and> primary backwardEditor = primary backwardEditor \<longrightarrow>
             (\<exists>ed'. handleDuplicateLineDown False (Some backwardEditor) = (Some ed', True) \<and>
                    doc ed' = after \<and> getValue ed' = join_with [LF] after))"
    by blast
  then have all: "doc (fst (duplicateDown_each (backwardEditor, []) (primary backwardEditor))) =
        [js ''ab'', js ''cd'', js ''ab'', js ''cd''] \<and>
      join_with [LF]
        (doc (fst (duplicateDown_each (backwardEditor, []) (primary backwardEditor)))) =
      take (posToOffset (doc backwardEditor)
              \<lparr>line = 1, ch = int (length (doc backwardEditor ! nat 1))\<rparr>)
        (getValue backwardEditor) @ [LF] @
      join_with [LF] (map (\<lambda>i. doc backwardEditor ! nat i) [0..1]) @
      drop (posToOffset (doc backwardEditor)
              \<lparr>line = 1, ch = int (length (doc backwardEditor ! nat 1))\<rparr>)
        (getValue backwardEditor) \<and>
      deleteLines (doc (fst (duplicateDown_each (backwardEditor, []) (primary backwardEditor))))
         2 2 = doc backwardEditor \<and>
      join_with [LF] (deleteLines
         (doc (fst (duplicateDown_each (backwardEditor, []) (primary backwardEditor)))) 2 2) =
      getValue backwardEditor \<and>
      (secondary backwardEditor = [] \<and> primary backwardEditor = primary backwardEditor \<longrightarrow>
       (\<exists>ed'. handleDuplicateLineDown False (Some backwardEditor) = (Some ed', True) \<and>
         doc ed' = doc (fst (duplicateDown_each (backwardEditor, []) (primary backwardEditor))) \<and>
         getValue ed' = join_with [LF]
           (doc (fst (duplicateDown_each (backwardEditor, []) (primary backwardEditor))))))"
    unfolding Let_def n e .
  with h2 have r: "doc (fst (duplicateDown_each (backwardEditor, []) (primary backwardEditor))) =
        [js ''ab'', js ''cd'', js ''ab'', js ''cd'']"
      "deleteLines (doc (fst (duplicateDown_each (backwardEditor, []) (primary backwardEditor))))
         2 2 = doc backwardEditor"
      "\<exists>ed'. handleDuplicateLineDown False (Some backwardEditor) = (Some ed', True) \<and>
         doc ed' = doc (fst (duplicateDown_each (backwardEditor, []) (primary backwardEditor))) \<and>
         getValue ed' = join_with [LF]
           (doc (fst (duplicateDown_each (backwardEditor, []) (primary backwardEditor))))"
    by blast+
  have j: "join_with [LF] [js ''ab'', js ''cd'', js ''ab'', js ''cd''] =
      js ''ab'' @ [LF] @ js ''cd'' @ [LF] @ js ''ab'' @ [LF] @ js ''cd''"
    by simp
  from r(3) have first: "\<exists>ed'. handleDuplicateLineDown False (Some backwardEditor) = (Some ed', True) \<and>
      doc ed' = [js ''ab'', js ''cd'', js ''ab'', js ''cd''] \<and>
      getValue ed' = js ''ab'' @ [LF] @ js ''cd'' @ [LF] @ js ''ab'' @ [LF] @ js ''cd''"
    unfolding r(1) j .
  have e1: "take 1 (doc backwardEditor) @ [doc backwardEditor ! 0] @
      drop 1 (doc backwardEditor) = [js ''ab'', js ''ab'', js ''cd'']"
    by code_simp
  have e2: "take (posToOffset (doc backwardEditor)
                \<lparr>line = int 0, ch = int (length (doc backwardEditor ! 0))\<rparr>)
        (getValue backwardEditor) @ [LF] @ doc backwardEditor ! 0 @
      drop (posToOffset (doc backwardEditor)
                \<lparr>line = int 0, ch = int (length (doc backwardEditor ! 0))\<rparr>)
        (getValue backwardEditor) = js ''ab'' @ [LF] @ js ''ab'' @ [LF] @ js ''cd''"
    by code_simp
  have e3: "int 0 + 1 = 1" "(0::nat) + 1 = 1" by simp_all
  from both h1 g1 g2 g3
  have "let p = posToOffset (doc backwardEditor)
                  \<lparr>line = int 0, ch = int (length (doc backwardEditor ! 0))\<rparr>
       in \<exists>ed'. handleDuplicateLineDown_guarded nothing_raises False (Some backwardEditor) =
                  Inr (Some ed', None, True) \<and>
            doc ed' = take (0 + 1) (doc backwardEditor) @ [doc backwardEditor ! 0] @
                        drop (0 + 1) (doc backwardEditor) \<and>
            getValue ed' = take p (getValue backwardEditor) @ [LF] @ doc backwardEditor ! 0 @
                             drop p (getValue backwardEditor) \<and>
            deleteLines (doc ed') (0 + 1) 1 = doc backwardEditor \<and>
            listSelections ed' =
              [\<lparr>anchor = \<lparr>line = int 0 + 1, ch = 1\<rparr>, head = \<lparr>line = int 0 + 1, ch = 1\<rparr>\<rparr>]"
    by blast
  then have second: "\<exists>ed'. handleDuplicateLineDown_guarded nothing_raises False (Some backwardEditor) =
            Inr (Some ed', None, True) \<and>
      doc ed' = [js ''ab'', js ''ab'', js ''cd''] \<and>
      getValue ed' = js ''ab'' @ [LF] @ js ''ab'' @ [LF] @ js ''cd'' \<and>
      deleteLines (doc ed') 1 1 = doc backwardEditor \<and>
      listSelections ed' = [\<lparr>anchor = \<lparr>line = 1, ch = 1\<rparr>, head = \<lparr>line = 1, ch = 1\<rparr>\<rparr>]"
    unfolding Let_def e1 e2 e3 .
  have g2': "getCursor backwardEditor = \<lparr>line = 0, ch = 1\<rparr>" using g2 by simp
  from h1 h2 h3 h4 r(1,2) first g1 g2' second show ?thesis by metis
qed

subsection \<open>Select word or expand\<close>

text \<open>
  C6, at the failing input: on the line \<open>ab ab\<close> with the first \<open>ab\<close> selected
  backwards (anchor at column 2, head at column 0) the search starts at the head's
  column, 0, and finds the selected occurrence itself, which is appended as a second
  selection of columns 0 to 2. The next occurrence after the end column 2 of the
  selection is at column 3.
\<close>

theorem select_word_backward_selection:
  "getSelection backwardWordEditor = js ''ab'' \<and>
   sel_to (primary backwardWordEditor) = \<lparr>line = 0, ch = 2\<rparr> \<and>
   getLine backwardWordEditor 0 = js ''ab ab'' \<and>
   indexOf (js ''ab ab'') (js ''ab'') 2 = 3 \<and>
   handleSelectWordOrExpand False (Some backwardWordEditor) =
     (Some (setSelections backwardWordEditor [range_of 0 2 0 0, range_of 0 0 0 2]), True)"
  by code_simp

lemma indexOf_cases:
  assumes "t \<noteq> []"
  shows "(indexOf s t p = - 1 \<and> (\<forall>j. clamp_index p (length s) \<le> j \<longrightarrow> \<not> occurs_at s t j)) \<or>
         (\<exists>k. indexOf s t p = int k \<and> clamp_index p (length s) \<le> k \<and> occurs_at s t k \<and>
              (\<forall>j. clamp_index p (length s) \<le> j \<and> j < k \<longrightarrow> \<not> occurs_at s t j))"
proof (cases "find (occurs_at s t) [clamp_index p (length s)..<Suc (length s)]")
  case None
  have "\<not> occurs_at s t j" if "clamp_index p (length s) \<le> j" for j
  proof (cases "j \<le> length s")
    case True
    with None that show ?thesis by (auto simp: find_None_iff simp del: upt_Suc)
  next
    case False
    then show ?thesis using assms by (auto simp: occurs_at_def)
  qed
  with None show ?thesis by (simp add: indexOf_def)
next
  case (Some k)
  then obtain i where i: "i < length [clamp_index p (length s)..<Suc (length s)]"
    "occurs_at s t ([clamp_index p (length s)..<Suc (length s)] ! i)"
    "k = [clamp_index p (length s)..<Suc (length s)] ! i"
    "\<forall>j<i. \<not> occurs_at s t ([clamp_index p (length s)..<Suc (length s)] ! j)"
    unfolding find_Some_iff by blast
  have k: "k = clamp_index p (length s) + i" using i(1,3) by (simp del: upt_Suc)
  have "\<not> occurs_at s t j" if "clamp_index p (length s) \<le> j \<and> j < k" for j
  proof -
    from that k have "j - clamp_index p (length s) < i" by arith
    with i(4) have "\<not> occurs_at s t ([clamp_index p (length s)..<Suc (length s)] !
        (j - clamp_index p (length s)))" by blast
    moreover have "[clamp_index p (length s)..<Suc (length s)] ! (j - clamp_index p (length s)) = j"
    proof -
      from that k i(1) have "clamp_index p (length s) + (j - clamp_index p (length s)) < Suc (length s)"
        by (simp del: upt_Suc) arith
      then have "[clamp_index p (length s)..<Suc (length s)] ! (j - clamp_index p (length s)) =
          clamp_index p (length s) + (j - clamp_index p (length s))"
        by (rule nth_upt)
      with that show ?thesis by simp
    qed
    ultimately show ?thesis by simp
  qed
  with Some i(2,3) k show ?thesis by (auto simp: indexOf_def)
qed

lemma select_word_expand_lemma:
  assumes "getSelection ed \<noteq> []"
  shows "(let t = getSelection ed;
              l = line (getCursor ed);
              ln = getLine ed l;
              start = clamp_index (ch (head (primary ed))) (length ln)
          in (handleSelectWordOrExpand False (Some ed) = (Some ed, True) \<and>
              (\<forall>j. start \<le> j \<longrightarrow> \<not> occurs_at ln t j)) \<or>
             (\<exists>k. handleSelectWordOrExpand False (Some ed) =
                     (Some (setSelections ed
                        (listSelections ed @
                         [range_of l (int k) l (int k + int (length t))])), True) \<and>
                  start \<le> k \<and> occurs_at ln t k \<and>
                  (\<forall>j. start \<le> j \<and> j < k \<longrightarrow> \<not> occurs_at ln t j)))"
proof -
  define t where "t = getSelection ed"
  define l where "l = line (getCursor ed)"
  define ln where "ln = getLine ed l"
  define p where "p = ch (head (primary ed))"
  have ne: "t \<noteq> []" using assms by (simp add: t_def)
  have la: "last (listSelections ed) = primary ed" by (simp add: listSelections_def)
  have h: "handleSelectWordOrExpand False (Some ed) =
      (if indexOf ln t p \<noteq> - 1
       then (Some (setSelections ed
              (listSelections ed @
               [range_of l (indexOf ln t p) l (indexOf ln t p + int (length t))])), True)
       else (Some ed, True))"
    using ne by (simp add: handleSelectWordOrExpand_def Let_def la t_def l_def ln_def p_def
        range_of_def)
  from indexOf_cases [OF ne, of ln p]
  have "(handleSelectWordOrExpand False (Some ed) = (Some ed, True) \<and>
              (\<forall>j. clamp_index p (length ln) \<le> j \<longrightarrow> \<not> occurs_at ln t j)) \<or>
             (\<exists>k. handleSelectWordOrExpand False (Some ed) =
                     (Some (setSelections ed
                        (listSelections ed @
                         [range_of l (int k) l (int k + int (length t))])), True) \<and>
                  clamp_index p (length ln) \<le> k \<and> occurs_at ln t k \<and>
                  (\<forall>j. clamp_index p (length ln) \<le> j \<and> j < k \<longrightarrow> \<not> occurs_at ln t j))"
  proof (elim disjE exE conjE)
    assume "indexOf ln t p = - 1" "\<forall>j. clamp_index p (length ln) \<le> j \<longrightarrow> \<not> occurs_at ln t j"
    then show ?thesis using h by simp
  next
    fix k
    assume "indexOf ln t p = int k" "clamp_index p (length ln) \<le> k" "occurs_at ln t k"
      "\<forall>j. clamp_index p (length ln) \<le> j \<and> j < k \<longrightarrow> \<not> occurs_at ln t j"
    then show ?thesis using h by (intro disjI2 exI [of _ k]) simp
  qed
  then show ?thesis
    unfolding Let_def t_def l_def ln_def p_def .
qed

text \<open>
  X5: with a selection that is not empty, the handler searches the cursor's line only,
  from the column of the head of the primary selection on. It appends a selection of the
  first literal occurrence of the selected text at or after that column and keeps the
  selections there were; if there is no such occurrence on the line, the editor is left
  as it is. For a selection made forwards the head's column is the selection's end.
\<close>

theorem select_word_expand:
  assumes "getSelection ed \<noteq> []"
  shows "(let t = getSelection ed;
              l = line (getCursor ed);
              ln = getLine ed l;
              start = clamp_index (ch (head (primary ed))) (length ln)
          in (handleSelectWordOrExpand False (Some ed) = (Some ed, True) \<and>
              (\<forall>j. start \<le> j \<longrightarrow> \<not> occurs_at ln t j)) \<or>
             (\<exists>k. handleSelectWordOrExpand False (Some ed) =
                     (Some (setSelections ed
                        (listSelections ed @
                         [range_of l (int k) l (int k + int (length t))])), True) \<and>
                  start \<le> k \<and> occurs_at ln t k \<and>
                  (\<forall>j. start \<le> j \<and> j < k \<longrightarrow> \<not> occurs_at ln t j)))"
  using assms by (rule select_word_expand_lemma)

theorem select_word_expand_witness:
  "getSelection forwardWordEditor \<noteq> [] \<and>
   handleSelectWordOrExpand False (Some forwardWordEditor) =
     (Some (setSelections forwardWordEditor [range_of 0 0 0 2, range_of 0 3 0 5]), True) \<and>
   ((handleSelectWordOrExpand False (Some forwardWordEditor) = (Some forwardWordEditor, True) \<and>
     (\<forall>j. 2 \<le> j \<longrightarrow> \<not> occurs_at (js ''ab ab'') (js ''ab'') j)) \<or>
    (\<exists>k. handleSelectWordOrExpand False (Some forwardWordEditor) =
            (Some (setSelections forwardWordEditor
               (listSelections forwardWordEditor @
                [range_of 0 (int k) 0 (int k + int (length (js ''ab'')))])), True) \<and>
         2 \<le> k \<and> occurs_at (js ''ab ab'') (js ''ab'') k \<and>
         (\<forall>j. 2 \<le> j \<and> j < k \<longrightarrow> \<not> occurs_at (js ''ab ab'') (js ''ab'') j)))"
proof -
  have a: "getSelection forwardWordEditor \<noteq> []" by code_simp
  have h: "handleSelectWordOrExpand False (Some forwardWordEditor) =
     (Some (setSelections forwardWordEditor [range_of 0 0 0 2, range_of 0 3 0 5]), True)"
    by code_simp
  have t: "getSelection forwardWordEditor = js ''ab''" by code_simp
  have l: "line (getCursor forwardWordEditor) = 0" by code_simp
  have n: "getLine forwardWordEditor 0 = js ''ab ab''" by code_simp
  have c: "clamp_index (ch (head (primary forwardWordEditor))) (length (js ''ab ab'')) = 2"
    by code_simp
  from select_word_expand [OF a] a h show ?thesis
    unfolding Let_def t l n c by blast
qed

lemma select_word_jump_records_lemma:
  assumes "getSelection ed \<noteq> []"
  shows "handleSelectWordOrExpand_jump False w (Some ed) = (Some (getSelection ed), Some ed, True)"
  using assms by (simp add: handleSelectWordOrExpand_jump_def Let_def)

text \<open>
  X7: in the earlier handler of the command, an invocation with a selection that is not
  empty records the selected text as \<open>lastSelectedWord\<close> and leaves the editor as it
  is: no selection is added.
\<close>

theorem select_word_jump_records:
  assumes "getSelection ed \<noteq> []"
  shows "handleSelectWordOrExpand_jump False w (Some ed) = (Some (getSelection ed), Some ed, True)"
  using assms by (rule select_word_jump_records_lemma)

theorem select_word_jump_records_witness:
  "getSelection forwardWordEditor \<noteq> [] \<and>
   handleSelectWordOrExpand_jump False None (Some forwardWordEditor) =
     (Some (js ''ab''), Some forwardWordEditor, True)"
proof -
  have a: "getSelection forwardWordEditor \<noteq> []" by code_simp
  have t: "getSelection forwardWordEditor = js ''ab''" by code_simp
  from select_word_jump_records [OF a, of None] a show ?thesis unfolding t by simp
qed

subsection \<open>Toggle case\<close>

lemma toggled_append: "toggled (a @ b) = toggled a @ toggled b"
  by (simp add: toggled_def)

lemma toggled_single: "toggled [c] = toggle_char c"
  by (simp add: toggled_def)

lemma upper_special_not_Nil: "list_all (\<lambda>(c, s). s \<noteq> []) upper_special"
  by (simp add: upper_special_def)

lemma lower_special_not_Nil: "list_all (\<lambda>(c, s). s \<noteq> []) lower_special"
  by (simp add: lower_special_def)

lemma case_map_not_Nil:
  assumes "list_all (\<lambda>(c, s). s \<noteq> []) special"
  shows "case_map special ranges c \<noteq> []"
proof (cases "map_of special c")
  case None
  then show ?thesis
    by (cases "find (in_case_range c) ranges")
      (auto simp add: case_map_def split: prod.splits)
next
  case (Some s)
  then have "(c, s) \<in> set special" by (rule map_of_SomeD)
  with assms have "s \<noteq> []" by (auto simp add: list_all_iff)
  with Some show ?thesis by (simp add: case_map_def)
qed

lemma toggle_char_not_Nil: "toggle_char c \<noteq> []"
proof -
  have "toUpperCase_unit c \<noteq> []"
    unfolding toUpperCase_unit_def by (rule case_map_not_Nil [OF upper_special_not_Nil])
  moreover have "toLowerCase_unit c \<noteq> []"
    unfolding toLowerCase_unit_def by (rule case_map_not_Nil [OF lower_special_not_Nil])
  ultimately show ?thesis by (simp add: toggle_char_def)
qed

lemma length_toggled: "length s \<le> length (toggled s)"
proof (induction s)
  case Nil
  then show ?case by (simp add: toggled_def)
next
  case (Cons c s)
  have "1 \<le> length (toggle_char c)"
    using toggle_char_not_Nil [of c] by (cases "toggle_char c") simp_all
  moreover have "toggled (c # s) = toggle_char c @ toggled s" by (simp add: toggled_def)
  ultimately show ?case using Cons by simp
qed

lemma round_trips_iff: "round_trips c = (toggled (toggle_char c) = [c])"
proof (cases "toggle_char c")
  case Nil
  then show ?thesis using toggle_char_not_Nil [of c] by simp
next
  case (Cons d ds)
  show ?thesis
  proof (cases ds)
    case Nil
    with Cons show ?thesis by (simp add: round_trips_def toggled_single)
  next
    case (Cons e es)
    have "length (toggled (toggle_char c)) \<ge> 2"
      using length_toggled [of "toggle_char c"] \<open>toggle_char c = d # ds\<close> Cons by simp
    then have "toggled (toggle_char c) \<noteq> [c]" by auto
    with \<open>toggle_char c = d # ds\<close> Cons show ?thesis by (simp add: round_trips_def)
  qed
qed

lemma toggled_twice_iff: "(toggled (toggled s) = s) = list_all round_trips s"
proof (induction s)
  case Nil
  then show ?case by (simp add: toggled_def)
next
  case (Cons c s)
  have e: "toggled (toggled (c # s)) = toggled (toggle_char c) @ toggled (toggled s)"
    by (simp add: toggled_def)
  have l1: "1 \<le> length (toggled (toggle_char c))"
    using length_toggled [of "toggle_char c"] toggle_char_not_Nil [of c]
    by (cases "toggle_char c") simp_all
  have l2: "length s \<le> length (toggled (toggled s))"
    using length_toggled [of s] length_toggled [of "toggled s"] by simp
  show ?case
  proof
    assume a: "toggled (toggled (c # s)) = c # s"
    then have "length (toggled (toggle_char c)) + length (toggled (toggled s)) = Suc (length s)"
      unfolding e by (metis length_append length_Cons)
    with l1 l2 have "length (toggled (toggle_char c)) = 1" by simp
    then obtain d where d: "toggled (toggle_char c) = [d]"
      by (cases "toggled (toggle_char c)") simp_all
    with a e have dc: "d = c" and ss: "toggled (toggled s) = s" by simp_all
    from ss Cons have "list_all round_trips s" by blast
    moreover from d dc have "round_trips c" by (simp add: round_trips_iff)
    ultimately show "list_all round_trips (c # s)" by simp
  next
    assume "list_all round_trips (c # s)"
    then have rc: "round_trips c" and rs: "list_all round_trips s" by simp_all
    from rs Cons have "toggled (toggled s) = s" by blast
    moreover from rc have "toggled (toggle_char c) = [c]" by (simp add: round_trips_iff)
    ultimately show "toggled (toggled (c # s)) = c # s"
      unfolding e by simp
  qed
qed

text \<open>
  Looking a code unit up in the tables, one entry after the other, without rewriting the
  rest of the table at each step.
\<close>

lemma find_table_cong: "P = Q \<Longrightarrow> find P xs = find Q xs"
  by simp

lemma map_of_table_cong: "k = l \<Longrightarrow> map_of xs k = map_of xs l"
  by simp

lemma map_of_Cons_if: "map_of ((l, v) # ps) k = (if l = k then Some v else map_of ps k)"
  by simp

lemma map_of_Nil_None: "map_of [] k = None"
  by simp

lemmas case_tables =
  arg_cong [OF upper_special_def, of "\<lambda>xs. map_of xs k"]
  arg_cong [OF lower_special_def, of "\<lambda>xs. map_of xs k"]
  arg_cong [OF upper_ranges_def, of "\<lambda>xs. find P xs"]
  arg_cong [OF lower_ranges_def, of "\<lambda>xs. find P xs"]
  for k P

lemmas case_lookup =
  toggled_def toggle_char_def toUpperCase_unit_def toLowerCase_unit_def case_map_def
  case_tables map_of_Cons_if map_of_Nil_None

text \<open>
  Basic Latin and Latin-1 Supplement (U+0000 to U+00FF): the entries of the tables for
  these code units, and the case mappings as they follow from them.
\<close>

lemma find_filter:
  assumes "\<And>x. P x \<Longrightarrow> Q x"
  shows "find P (filter Q xs) = find P xs"
  using assms by (induction xs) auto

lemma map_of_filter_key:
  assumes "Q k"
  shows "map_of (filter (\<lambda>p. Q (fst p)) xs) k = map_of xs k"
  using assms by (induction xs) auto

lemma in_case_range_first: "in_case_range c r \<Longrightarrow> fst r \<le> c"
  by (cases r) (simp split: if_splits)

lemma case_map_latin1:
  assumes "c \<le> 255"
  shows "case_map special ranges c =
         case_map (filter (\<lambda>p. fst p \<le> 255) special) (filter (\<lambda>r. fst r \<le> 255) ranges) c"
proof -
  have f: "find (in_case_range c) (filter (\<lambda>r. fst r \<le> 255) ranges) =
        find (in_case_range c) ranges"
  proof (rule find_filter)
    fix r
    assume "in_case_range c r"
    then have "fst r \<le> c" by (rule in_case_range_first)
    with assms show "fst r \<le> 255" by simp
  qed
  have m: "map_of (filter (\<lambda>p. fst p \<le> 255) special) c = map_of special c"
    using assms by (rule map_of_filter_key [of "\<lambda>k. k \<le> 255"])
  show ?thesis unfolding case_map_def f m ..
qed

lemma upper_ranges_latin1:
  "filter (\<lambda>r. fst r \<le> 255) upper_ranges =
     [(97, 122, 1, - 32), (181, 181, 1, 743), (224, 246, 1, - 32), (248, 254, 1, - 32),
      (255, 255, 1, 121)]"
  by (simp add: upper_ranges_def)

lemma upper_special_latin1:
  "filter (\<lambda>p. fst p \<le> 255) upper_special = [(223, [83, 83])]"
  by (simp add: upper_special_def)

lemma lower_ranges_latin1:
  "filter (\<lambda>r. fst r \<le> 255) lower_ranges =
     [(65, 90, 1, 32), (192, 214, 1, 32), (216, 222, 1, 32)]"
  by (simp add: lower_ranges_def)

lemma lower_special_latin1:
  "filter (\<lambda>p. fst p \<le> 255) lower_special = []"
  by (simp add: lower_special_def)

lemma toUpperCase_unit_latin1:
  assumes "c \<le> 255"
  shows "toUpperCase_unit c =
     (if 97 \<le> c \<and> c \<le> 122 then [c - 32]
      else if c = 181 then [924]
      else if c = 223 then [83, 83]
      else if 224 \<le> c \<and> c \<le> 254 \<and> c \<noteq> 247 then [c - 32]
      else if c = 255 then [376]
      else [c])"
proof -
  have "toUpperCase_unit c =
      case_map [(223, [83, 83])]
        [(97, 122, 1, - 32), (181, 181, 1, 743), (224, 246, 1, - 32), (248, 254, 1, - 32),
         (255, 255, 1, 121)] c"
    unfolding toUpperCase_unit_def case_map_latin1 [OF assms, of upper_special upper_ranges]
      upper_ranges_latin1 upper_special_latin1 ..
  also have "\<dots> =
     (if 97 \<le> c \<and> c \<le> 122 then [c - 32]
      else if c = 181 then [924]
      else if c = 223 then [83, 83]
      else if 224 \<le> c \<and> c \<le> 254 \<and> c \<noteq> 247 then [c - 32]
      else if c = 255 then [376]
      else [c])"
    using assms by (auto simp add: case_map_def nat_diff_distrib)
  finally show ?thesis .
qed

lemma toLowerCase_unit_latin1:
  assumes "c \<le> 255"
  shows "toLowerCase_unit c =
     (if 65 \<le> c \<and> c \<le> 90 then [c + 32]
      else if 192 \<le> c \<and> c \<le> 222 \<and> c \<noteq> 215 then [c + 32]
      else [c])"
proof -
  have "toLowerCase_unit c =
      case_map [] [(65, 90, 1, 32), (192, 214, 1, 32), (216, 222, 1, 32)] c"
    unfolding toLowerCase_unit_def case_map_latin1 [OF assms, of lower_special lower_ranges]
      lower_ranges_latin1 lower_special_latin1 ..
  also have "\<dots> =
     (if 65 \<le> c \<and> c \<le> 90 then [c + 32]
      else if 192 \<le> c \<and> c \<le> 222 \<and> c \<noteq> 215 then [c + 32]
      else [c])"
    by (auto simp add: case_map_def nat_add_distrib)
  finally show ?thesis .
qed

lemma toggle_char_lower_letter:
  assumes "(97 \<le> c \<and> c \<le> 122) \<or> (224 \<le> c \<and> c \<le> 254 \<and> c \<noteq> 247)"
  shows "toggle_char c = [c - 32]"
proof -
  have "c \<le> 255" using assms by arith
  then have "toUpperCase_unit c = [c - 32]"
    using assms by (simp add: toUpperCase_unit_latin1) arith
  moreover have "c - 32 \<noteq> c" using assms by arith
  ultimately show ?thesis by (simp add: toggle_char_def)
qed

lemma toggle_char_upper_letter:
  assumes "(65 \<le> c \<and> c \<le> 90) \<or> (192 \<le> c \<and> c \<le> 222 \<and> c \<noteq> 215)"
  shows "toggle_char c = [c + 32]"
proof -
  have le: "c \<le> 255" using assms by arith
  have "toUpperCase_unit c = [c]"
    using assms le by (simp add: toUpperCase_unit_latin1) arith
  moreover have "toLowerCase_unit c = [c + 32]"
    using assms le by (simp add: toLowerCase_unit_latin1) arith
  ultimately show ?thesis by (simp add: toggle_char_def)
qed

lemma toggle_char_caseless:
  assumes "toUpperCase_unit c = [c]" "toLowerCase_unit c = [c]"
  shows "toggle_char c = [c]"
  using assms by (simp add: toggle_char_def)

lemma toggle_char_y_diaeresis: "toggle_char 255 = [376] \<and> toggle_char 376 = [255]"
  by (simp add: case_lookup del: map_of.simps cong: find_table_cong map_of_table_cong)

lemma toggle_char_round_trip:
  assumes "c \<le> 255" "c \<noteq> 181" "c \<noteq> 223"
  shows "toggled (toggle_char c) = [c]"
proof -
  consider (low) "(97 \<le> c \<and> c \<le> 122) \<or> (224 \<le> c \<and> c \<le> 254 \<and> c \<noteq> 247)"
    | (up) "(65 \<le> c \<and> c \<le> 90) \<or> (192 \<le> c \<and> c \<le> 222 \<and> c \<noteq> 215)"
    | (y) "c = 255"
    | (none) "\<not> (97 \<le> c \<and> c \<le> 122)" "\<not> (224 \<le> c \<and> c \<le> 254 \<and> c \<noteq> 247)"
        "\<not> (65 \<le> c \<and> c \<le> 90)" "\<not> (192 \<le> c \<and> c \<le> 222 \<and> c \<noteq> 215)" "c \<noteq> 255"
    by blast
  then show ?thesis
  proof cases
    case low
    then have up': "(65 \<le> c - 32 \<and> c - 32 \<le> 90) \<or>
        (192 \<le> c - 32 \<and> c - 32 \<le> 222 \<and> c - 32 \<noteq> 215)"
      by arith
    have "c - 32 + 32 = c" using low by arith
    then show ?thesis
      using toggle_char_lower_letter [OF low] toggle_char_upper_letter [OF up']
      by (simp add: toggled_single)
  next
    case up
    then have low': "(97 \<le> c + 32 \<and> c + 32 \<le> 122) \<or>
        (224 \<le> c + 32 \<and> c + 32 \<le> 254 \<and> c + 32 \<noteq> 247)"
      by arith
    show ?thesis
      using toggle_char_upper_letter [OF up] toggle_char_lower_letter [OF low']
      by (simp add: toggled_single)
  next
    case y
    then show ?thesis using toggle_char_y_diaeresis by (simp add: toggled_single)
  next
    case none
    have u: "toUpperCase_unit c = [c]"
      using none assms by (simp add: toUpperCase_unit_latin1) arith
    have l: "toLowerCase_unit c = [c]"
      using none assms by (simp add: toLowerCase_unit_latin1)
    show ?thesis
      using toggle_char_caseless [OF u l] by (simp add: toggled_single)
  qed
qed

lemma toggled_twice_latin1:
  assumes "list_all (\<lambda>c. c \<le> 255 \<and> c \<noteq> 181 \<and> c \<noteq> 223) s"
  shows "toggled (toggled s) = s"
proof -
  have "list_all round_trips s"
    using assms toggle_char_round_trip by (simp add: list_all_iff round_trips_iff)
  then show ?thesis by (simp add: toggled_twice_iff)
qed

text \<open>
  C8, as stated, fails: toggling the sharp s (U+00DF) gives \<open>SS\<close>, since its uppercase
  form is the two letters, and toggling \<open>SS\<close> gives \<open>ss\<close>, not the sharp s.
\<close>

theorem toggle_case_sharp_s_counterexample:
  "toggled [223] = [83, 83] \<and> toggled (toggled [223]) = [115, 115] \<and>
   toggled (toggled [223]) \<noteq> [223]"
  by (simp add: case_lookup del: map_of.simps cong: find_table_cong map_of_table_cong)

text \<open>
  C8 (amended): toggling twice gives the text back exactly when every code unit of the
  text toggles to one code unit that toggles back to it, which is so for a code unit
  without case and for an upper and a lower case letter that are each other's case
  mapping. Every text over U+0000 to U+00FF without the micro sign (U+00B5) and the
  sharp s (U+00DF) is such a text, so every ASCII text is. For every text, one
  application maps each code unit that is its own uppercase form to its lowercase form
  and every other one to its uppercase form, and a code unit that is both its own
  uppercase and its own lowercase form is left as it is.
\<close>

theorem toggle_case_involution:
  "(toggled (toggled s) = s) = list_all round_trips s \<and>
   (list_all (\<lambda>c. c \<le> 255 \<and> c \<noteq> 181 \<and> c \<noteq> 223) t \<longrightarrow> toggled (toggled t) = t) \<and>
   toggled s =
     concat (map (\<lambda>c. if [c] = toUpperCase_unit c then toLowerCase_unit c
                       else toUpperCase_unit c) s) \<and>
   (toUpperCase_unit c = [c] \<and> toLowerCase_unit c = [c] \<longrightarrow> toggle_char c = [c])"
proof (intro conjI impI)
  show "(toggled (toggled s) = s) = list_all round_trips s" by (rule toggled_twice_iff)
next
  assume "list_all (\<lambda>c. c \<le> 255 \<and> c \<noteq> 181 \<and> c \<noteq> 223) t"
  then show "toggled (toggled t) = t" by (rule toggled_twice_latin1)
next
  show "toggled s =
     concat (map (\<lambda>c. if [c] = toUpperCase_unit c then toLowerCase_unit c
                       else toUpperCase_unit c) s)"
    by (induction s) (simp_all add: toggled_def toggle_char_def)
next
  assume "toUpperCase_unit c = [c] \<and> toLowerCase_unit c = [c]"
  then show "toggle_char c = [c]" by (simp add: toggle_char_caseless)
qed

theorem toggle_case_involution_witness:
  "list_all round_trips [255, 257, 1072, 1071] \<and>
   toggled [255, 257, 1072, 1071] = [376, 256, 1040, 1103] \<and>
   toggled (toggled [255, 257, 1072, 1071]) = [255, 257, 1072, 1071] \<and>
   list_all (\<lambda>c. c \<le> 255 \<and> c \<noteq> 181 \<and> c \<noteq> 223) (js ''Hello, World 42'') \<and>
   toggled (toggled (js ''Hello, World 42'')) = js ''Hello, World 42'' \<and>
   toUpperCase_unit 52 = [52] \<and> toLowerCase_unit 52 = [52] \<and> toggle_char 52 = [52]"
proof -
  have r: "list_all round_trips [255, 257, 1072, 1071]"
    by (simp add: round_trips_def case_lookup del: map_of.simps
        cong: find_table_cong map_of_table_cong)
  have t: "toggled [255, 257, 1072, 1071] = [376, 256, 1040, 1103]"
    by (simp add: case_lookup del: map_of.simps cong: find_table_cong map_of_table_cong)
  have h: "list_all (\<lambda>c. c \<le> 255 \<and> c \<noteq> 181 \<and> c \<noteq> 223) (js ''Hello, World 42'')"
    by (simp add: js_def)
  have c: "toUpperCase_unit 52 = [52] \<and> toLowerCase_unit 52 = [52]"
    by (simp add: toUpperCase_unit_latin1 toLowerCase_unit_latin1)
  from toggle_case_involution [of "[255, 257, 1072, 1071]" "js ''Hello, World 42''" 52]
    r t h c show ?thesis
    by blast
qed

end
